theory Spec2Isabelle
  imports Main "HOL-Library.Word"
begin

section \<open>Platform: bytes and C integers\<close>

text \<open>
  The embedding follows \<^verbatim>\<open>store.c\<close> on an LP64 little-endian platform: \<^verbatim>\<open>int\<close> has
  32 bits in two's complement, \<^verbatim>\<open>size_t\<close> is unsigned with 64 bits and \<^verbatim>\<open>off_t\<close> is
  signed with 64 bits. Files and buffers are lists of bytes. Byte counts are natural
  numbers; the model is exact as long as they stay below \<open>2 ^ 31\<close>, where the conversions
  between \<^verbatim>\<open>int\<close>, \<^verbatim>\<open>unsigned int\<close> and \<^verbatim>\<open>size_t\<close> of the source change nothing
  (the buffers of this file hold 1 MiB and 10 MiB). Tile coordinates are integers and
  \<^verbatim>\<open>x + ox\<close> is taken not to overflow.
\<close>

type_synonym byte = "8 word"

definition slice :: "'a list \<Rightarrow> nat \<Rightarrow> nat \<Rightarrow> 'a list" where
  "slice bs off n = take n (drop off bs)"

text \<open>Storing \<open>new\<close> at byte offset \<open>off\<close> of a buffer that reaches at least that far.\<close>

definition write_at :: "'a list \<Rightarrow> nat \<Rightarrow> 'a list \<Rightarrow> 'a list" where
  "write_at bs off new = take off bs @ new @ drop (off + length new) bs"

text \<open>The four bytes of an \<^verbatim>\<open>int\<close> in memory, and the \<^verbatim>\<open>int\<close> four bytes stand for.\<close>

definition le32 :: "int \<Rightarrow> byte list" where
  "le32 i =
     (let n = nat (i mod 2 ^ 32)
      in [of_nat (n mod 256), of_nat (n div 256 mod 256),
          of_nat (n div 65536 mod 256), of_nat (n div 16777216 mod 256)])"

definition int_of_le32 :: "byte list \<Rightarrow> int" where
  "int_of_le32 bs =
     (let n = unat (bs ! 0) + 256 * unat (bs ! 1) + 65536 * unat (bs ! 2)
              + 16777216 * unat (bs ! 3)
      in if n < 2 ^ 31 then int n else int n - 2 ^ 32)"

text \<open>The implicit conversions \<^verbatim>\<open>int\<close> to \<^verbatim>\<open>size_t\<close> and \<^verbatim>\<open>size_t\<close> to \<^verbatim>\<open>off_t\<close>.\<close>

definition size_t_of_int :: "int \<Rightarrow> nat" where
  "size_t_of_int i = nat (i mod 2 ^ 64)"

definition off_t_of_size_t :: "nat \<Rightarrow> int" where
  "off_t_of_size_t n = (if n < 2 ^ 63 then int n else int n - 2 ^ 64)"

section \<open>The container layout\<close>

text \<open>
  Modelled from the spec: \<^verbatim>\<open>store.h\<close> and \<^verbatim>\<open>render_config.h\<close> (the declarations of
  \<^verbatim>\<open>struct meta_layout\<close>, \<^verbatim>\<open>struct entry\<close>, \<^verbatim>\<open>META_MAGIC\<close> and \<^verbatim>\<open>METATILE\<close>) are
  not among the sources. The container starts with the magic marker, the count and the
  block coordinates x, y, z as 4-byte integers; the index table follows the header
  fields, one (offset, size) pair of integers per slot; the block edge is 8
  (\<^verbatim>\<open>store.c\<close> opens with "bundle the 8x8 meta tile"). \<^verbatim>\<open>sizeof(struct meta_layout)\<close>
  covers the header fields only: \<^verbatim>\<open>process_meta\<close> adds the size of the index table to
  it to find where the payload starts. The spec gives neither the bytes of the marker
  nor the width of the two fields of an entry: the marker is taken to be the four bytes
  of "META" and the fields to be \<^verbatim>\<open>int\<close>s, as \<^verbatim>\<open>process_meta\<close> assigns an \<^verbatim>\<open>int\<close> to the
  size. Nothing proved below depends on the marker beyond its length.
\<close>

definition METATILE :: nat where
  "METATILE = 8"

definition META_MAGIC :: "byte list" where
  "META_MAGIC = [0x4D, 0x45, 0x54, 0x41]"

definition sizeof_meta_layout :: nat where
  "sizeof_meta_layout = 20"

definition sizeof_entry :: nat where
  "sizeof_entry = 8"

definition m_count :: "byte list \<Rightarrow> int" where
  "m_count m = int_of_le32 (slice m 4 4)"

definition m_x :: "byte list \<Rightarrow> int" where
  "m_x m = int_of_le32 (slice m 8 4)"

definition m_y :: "byte list \<Rightarrow> int" where
  "m_y m = int_of_le32 (slice m 12 4)"

definition m_z :: "byte list \<Rightarrow> int" where
  "m_z m = int_of_le32 (slice m 16 4)"

text \<open>Where the entry of slot \<open>i\<close> starts and ends in the container.\<close>

definition index_at :: "nat \<Rightarrow> nat" where
  "index_at i = sizeof_meta_layout + sizeof_entry * i"

definition index_end :: "nat \<Rightarrow> nat" where
  "index_end i = index_at i + sizeof_entry"

definition index_offset :: "byte list \<Rightarrow> nat \<Rightarrow> int" where
  "index_offset m i = int_of_le32 (slice m (index_at i) 4)"

definition index_size :: "byte list \<Rightarrow> nat \<Rightarrow> int" where
  "index_size m i = int_of_le32 (slice m (index_at i + 4) 4)"

text \<open>\<^verbatim>\<open>m->index[i].offset = off; m->index[i].size = sz;\<close>\<close>

definition set_index :: "byte list \<Rightarrow> nat \<Rightarrow> int \<Rightarrow> int \<Rightarrow> byte list" where
  "set_index m i off sz = write_at m (index_at i) (le32 off @ le32 sz)"

text \<open>
  \<^verbatim>\<open>sizeof(struct meta_layout) + sizeof(struct entry) * (METATILE * METATILE)\<close>: the
  first value of \<^verbatim>\<open>offset\<close> in \<^verbatim>\<open>process_meta\<close>.
\<close>

definition header_size :: nat where
  "header_size = sizeof_meta_layout + sizeof_entry * (METATILE * METATILE)"

section \<open>The collaborators and the file system\<close>

text \<open>
  Modelled from the spec: \<^verbatim>\<open>dir_utils.h\<close> (\<^verbatim>\<open>xyz_to_meta\<close>, \<^verbatim>\<open>xyz_to_path\<close>,
  \<^verbatim>\<open>path_to_xyz\<close>) is not among the sources. The spec takes them as pure functions;
  here they are parameters of every operation. \<open>xyz_to_meta\<close> gives the container's
  path and the slot of the tile in it, \<open>path_to_xyz\<close> fails with \<open>None\<close> where the
  source returns non-zero. Paths are values of any type \<open>'p\<close>.
\<close>

record 'p addressing =
  xyz_to_meta :: "int \<Rightarrow> int \<Rightarrow> int \<Rightarrow> 'p \<times> nat"
  xyz_to_path :: "int \<Rightarrow> int \<Rightarrow> int \<Rightarrow> 'p"
  path_to_xyz :: "'p \<Rightarrow> (int \<times> int \<times> int) option"

text \<open>
  The file system holds regular files only: a path has a content or is absent. Opening
  for reading fails exactly on an absent path; opening for writing, \<^verbatim>\<open>malloc\<close>,
  \<^verbatim>\<open>read\<close> and \<^verbatim>\<open>write\<close> on an open file do not fail. The branches of the source for
  these failures are kept in the model.
\<close>

type_synonym 'p files = "'p \<Rightarrow> byte list option"

text \<open>One constructor for each diagnostic the source prints.\<close>

datatype 'p event =
    Meta_too_small 'p
  | Magic_mismatch 'p
  | Bad_count 'p int
  | Seek_error 'p
  | Truncating nat nat
  | File_truncated 'p nat
  | Problem_reading int int int int
  | Error_creating 'p
  | Writing_file
  | Produced_meta 'p
  | Produced_tile 'p
  | Unlink_failed 'p
  | Failed_to_get int int int

record 'p world =
  files :: "'p files"
  log :: "'p event list"

definition say :: "'p world \<Rightarrow> 'p event list \<Rightarrow> 'p world" where
  "say w evs = w\<lparr>log := log w @ evs\<rparr>"

text \<open>A descriptor open for reading: the bytes of the file and the file offset.\<close>

record fd =
  fd_bytes :: "byte list"
  fd_off :: nat

definition open_rdonly :: "'p files \<Rightarrow> 'p \<Rightarrow> fd option" where
  "open_rdonly fs path =
     (case fs path of None \<Rightarrow> None | Some bs \<Rightarrow> Some \<lparr>fd_bytes = bs, fd_off = 0\<rparr>)"

text \<open>\<^verbatim>\<open>read(fd, buf, len)\<close>: the count, the bytes stored and the descriptor after it.\<close>

definition sys_read :: "fd \<Rightarrow> nat \<Rightarrow> int \<times> byte list \<times> fd" where
  "sys_read fd len =
     (let chunk = take len (drop (fd_off fd) (fd_bytes fd))
      in (int (length chunk), chunk, fd\<lparr>fd_off := fd_off fd + length chunk\<rparr>))"

text \<open>
  \<^verbatim>\<open>lseek(fd, off, SEEK_SET)\<close>: a negative offset is refused; any other offset is
  accepted, also one beyond the end of the file.
\<close>

definition sys_lseek :: "fd \<Rightarrow> int \<Rightarrow> int \<times> fd" where
  "sys_lseek fd off = (if off < 0 then (- 1, fd) else (off, fd\<lparr>fd_off := nat off\<rparr>))"

text \<open>\<^verbatim>\<open>open(path, O_WRONLY | O_TRUNC | O_CREAT, 0666)\<close>; \<open>None\<close> stands for \<^verbatim>\<open>fd < 0\<close>.\<close>

definition open_wronly :: "'p world \<Rightarrow> 'p \<Rightarrow> 'p world option" where
  "open_wronly w path = Some (w\<lparr>files := (files w)(path \<mapsto> [])\<rparr>)"

text \<open>\<^verbatim>\<open>write(fd, buf, len)\<close> on the file opened at \<open>path\<close>: the bytes are appended.\<close>

definition sys_write :: "'p world \<Rightarrow> 'p \<Rightarrow> byte list \<Rightarrow> int \<times> 'p world" where
  "sys_write w path bs =
     (int (length bs),
      w\<lparr>files := (files w)(path \<mapsto> (case files w path of None \<Rightarrow> [] | Some old \<Rightarrow> old) @ bs)\<rparr>)"

definition sys_unlink :: "'p world \<Rightarrow> 'p \<Rightarrow> int \<times> 'p world" where
  "sys_unlink w path =
     (case files w path of
        None \<Rightarrow> (- 1, w)
      | Some bs \<Rightarrow> (0, w\<lparr>files := (files w)(path := None)\<rparr>))"

section \<open>The read and write loops\<close>

text \<open>
  The loop \<^verbatim>\<open>while (pos < lim) { got = read(fd, buf + pos, lim - pos); ... }\<close> of
  \<^verbatim>\<open>read_from_meta\<close> (twice) and \<^verbatim>\<open>read_from_file\<close>. \<open>buf\<close> is the part of the buffer
  filled so far. \<open>None\<close> is the exit on \<^verbatim>\<open>got < 0\<close>.
\<close>

function read_loop :: "fd \<Rightarrow> byte list \<Rightarrow> nat \<Rightarrow> nat \<Rightarrow> (fd \<times> byte list \<times> nat) option" where
  "read_loop fd buf pos lim =
     (if pos < lim then
        (case sys_read fd (lim - pos) of
           (got, chunk, fd') \<Rightarrow>
             if got < 0 then None
             else if got > 0 then read_loop fd' (buf @ chunk) (pos + nat got) lim
             else Some (fd, buf, pos))
      else Some (fd, buf, pos))"
  by pat_completeness auto
termination
  by (relation "measure (\<lambda>(fd, buf, pos, lim). lim - pos)") auto

declare read_loop.simps [simp del]

text \<open>
  The loop \<^verbatim>\<open>while (pos < lim) { len = write(fd, buf + pos, lim - pos); ... }\<close> of
  \<^verbatim>\<open>process_meta\<close> and \<^verbatim>\<open>write_tile\<close>. \<open>Inl\<close> is the exit on \<^verbatim>\<open>len < 0\<close>.
\<close>

function write_loop :: "'p world \<Rightarrow> 'p \<Rightarrow> byte list \<Rightarrow> nat \<Rightarrow> nat \<Rightarrow> 'p world + 'p world" where
  "write_loop w path buf pos lim =
     (if pos < lim then
        (case sys_write w path (slice buf pos (lim - pos)) of
           (len, w') \<Rightarrow>
             if len < 0 then Inl w'
             else if len > 0 then write_loop w' path buf (pos + nat len) lim
             else Inr w')
      else Inr w)"
  by pat_completeness auto
termination
  by (relation "measure (\<lambda>(w, path, buf, pos, lim). lim - pos)") auto

declare write_loop.simps [simp del]

section \<open>Reading one tile\<close>

text \<open>
  \<^verbatim>\<open>read_from_meta\<close> returns the \<^verbatim>\<open>int\<close> of the source, the bytes it stored in \<open>buf\<close>
  and the diagnostics it printed. The result is \<open>None\<close> where the source reads the
  entry of the slot from bytes of \<^verbatim>\<open>header\<close> that no \<^verbatim>\<open>read\<close> has filled: the array is
  not initialised and the value is not determined by the program.
\<close>

definition sizeof_header :: nat where
  "sizeof_header = 4096"

definition read_from_meta ::
  "'p addressing \<Rightarrow> 'p files \<Rightarrow> int \<Rightarrow> int \<Rightarrow> int \<Rightarrow> nat \<Rightarrow> (int \<times> byte list \<times> 'p event list) option" where
  "read_from_meta A fs x y z sz =
     (case xyz_to_meta A x y z of
        (path, meta_offset) \<Rightarrow>
          (case open_rdonly fs path of
             None \<Rightarrow> Some (- 1, [], [])
           | Some fd \<Rightarrow>
               (case read_loop fd [] 0 sizeof_header of
                  None \<Rightarrow> Some (- 2, [], [])
                | Some (fd1, header, pos) \<Rightarrow>
                    if pos < sizeof_meta_layout then Some (- 3, [], [Meta_too_small path])
                    else if take (length META_MAGIC) header \<noteq> META_MAGIC
                      then Some (- 4, [], [Magic_mismatch path])
                    else if m_count header \<noteq> int (METATILE * METATILE)
                      then Some (- 5, [], [Bad_count path (m_count header)])
                    else if pos < index_end meta_offset then None
                    else
                      (let file_offset = size_t_of_int (index_offset header meta_offset);
                           tile_size = size_t_of_int (index_size header meta_offset)
                       in case sys_lseek fd1 (off_t_of_size_t file_offset) of
                            (r, fd2) \<Rightarrow>
                              if r < 0 then Some (- 6, [], [Seek_error path])
                              else
                                (let warn = (if tile_size > sz then [Truncating tile_size sz] else []);
                                     tile_size = (if tile_size > sz then sz else tile_size)
                                 in case read_loop fd2 [] 0 tile_size of
                                      None \<Rightarrow> Some (- 7, [], warn)
                                    | Some (fd3, buf, pos) \<Rightarrow> Some (int pos, buf, warn))))))"

definition read_from_file ::
  "'p addressing \<Rightarrow> 'p files \<Rightarrow> int \<Rightarrow> int \<Rightarrow> int \<Rightarrow> nat \<Rightarrow> int \<times> byte list \<times> 'p event list" where
  "read_from_file A fs x y z sz =
     (let path = xyz_to_path A x y z
      in case open_rdonly fs path of
           None \<Rightarrow> (- 1, [], [])
         | Some fd \<Rightarrow>
             (case read_loop fd [] 0 sz of
                None \<Rightarrow> (- 2, [], [])
              | Some (fd1, buf, pos) \<Rightarrow>
                  (int pos, buf, if pos = sz then [File_truncated path sz] else [])))"

text \<open>\<^verbatim>\<open>tile_read\<close> passes its \<^verbatim>\<open>int sz\<close> on as a \<^verbatim>\<open>size_t\<close>.\<close>

definition tile_read ::
  "'p addressing \<Rightarrow> 'p files \<Rightarrow> int \<Rightarrow> int \<Rightarrow> int \<Rightarrow> int \<Rightarrow> (int \<times> byte list \<times> 'p event list) option" where
  "tile_read A fs x y z sz =
     (case read_from_meta A fs x y z (size_t_of_int sz) of
        None \<Rightarrow> None
      | Some (r, buf, evs) \<Rightarrow>
          if r \<ge> 0 then Some (r, buf, evs)
          else (case read_from_file A fs x y z (size_t_of_int sz) of
                  (r', buf', evs') \<Rightarrow> Some (r', buf', evs @ evs')))"

section \<open>Packing a block\<close>

text \<open>
  \<^verbatim>\<open>limit = (1 << z); limit = MIN(limit, METATILE);\<close> The shift is defined for
  \<open>0 \<le> z < 31\<close> only; \<open>None\<close> stands for the other values of \<open>z\<close>.
\<close>

definition shift_left_1 :: "int \<Rightarrow> nat option" where
  "shift_left_1 z = (if 0 \<le> z \<and> z < 31 then Some (2 ^ nat z) else None)"

definition block_limit :: "int \<Rightarrow> nat option" where
  "block_limit z = (case shift_left_1 z of None \<Rightarrow> None | Some l \<Rightarrow> Some (min l METATILE))"

text \<open>
  The pairs \<open>(ox, oy)\<close> in the order of
  \<^verbatim>\<open>for (ox=0; ox < limit; ox++) for (oy=0; oy < limit; oy++)\<close>.
\<close>

definition block_coords :: "nat \<Rightarrow> (nat \<times> nat) list" where
  "block_coords limit = List.product [0..<limit] [0..<limit]"

definition meta_buf_len :: nat where
  "meta_buf_len = 10 * 1024 * 1024"

definition unpack_buf_len :: nat where
  "unpack_buf_len = 1024 * 1024"

text \<open>
  The first pair of loops of \<^verbatim>\<open>process_meta\<close>. \<open>buf\<close> is the part of the working buffer
  in use, so \<^verbatim>\<open>offset\<close> is its length. \<open>Inl\<close> is the \<^verbatim>\<open>return\<close> on \<^verbatim>\<open>len <= 0\<close>. The
  result is \<open>None\<close> when the slot is outside the index table, where the assignment to
  \<^verbatim>\<open>m->index[mt]\<close> would land in the payload.
\<close>

fun pack_tiles ::
  "'p addressing \<Rightarrow> 'p files \<Rightarrow> int \<Rightarrow> int \<Rightarrow> int \<Rightarrow> (nat \<times> nat) list \<Rightarrow> byte list \<Rightarrow>
   'p event list \<Rightarrow> ('p event list + byte list \<times> 'p event list) option" where
  "pack_tiles A fs x y z [] buf evs = Some (Inr (buf, evs))"
| "pack_tiles A fs x y z ((ox, oy) # cs) buf evs =
     (let offset = length buf
      in case read_from_file A fs (x + int ox) (y + int oy) z (meta_buf_len - offset) of
           (len, data, msgs) \<Rightarrow>
             (case xyz_to_meta A (x + int ox) (y + int oy) z of
                (meta_path, mt) \<Rightarrow>
                  if len \<le> 0 then Some (Inl (evs @ msgs @ [Problem_reading x y z len]))
                  else if METATILE * METATILE \<le> mt then None
                  else pack_tiles A fs x y z cs
                         (set_index (buf @ data) mt (int offset) len) (evs @ msgs)))"

text \<open>
  \<^verbatim>\<open>m->count = METATILE * METATILE; memcpy(m->magic, META_MAGIC, ...); m->x = x; ...\<close>
\<close>

definition stamp_header :: "byte list \<Rightarrow> int \<Rightarrow> int \<Rightarrow> int \<Rightarrow> byte list" where
  "stamp_header buf x y z =
     write_at (write_at (write_at (write_at (write_at buf 4 (le32 (int (METATILE * METATILE))))
       0 META_MAGIC) 8 (le32 x)) 12 (le32 y)) 16 (le32 z)"

text \<open>The second pair of loops of \<^verbatim>\<open>process_meta\<close>: "Remove raw .png's".\<close>

fun unlink_tiles ::
  "'p addressing \<Rightarrow> 'p world \<Rightarrow> int \<Rightarrow> int \<Rightarrow> int \<Rightarrow> (nat \<times> nat) list \<Rightarrow> 'p world" where
  "unlink_tiles A w x y z [] = w"
| "unlink_tiles A w x y z ((ox, oy) # cs) =
     (let path = xyz_to_path A (x + int ox) (y + int oy) z
      in case sys_unlink w path of
           (r, w') \<Rightarrow> unlink_tiles A (if r < 0 then say w' [Unlink_failed path] else w') x y z cs)"

text \<open>\<^verbatim>\<open>process_meta\<close> from the first loop on, for the \<^verbatim>\<open>limit\<close> it has computed.\<close>

definition pack_block :: "'p addressing \<Rightarrow> 'p world \<Rightarrow> int \<Rightarrow> int \<Rightarrow> int \<Rightarrow> nat \<Rightarrow> 'p world option" where
  "pack_block A w x y z limit =
     (case pack_tiles A (files w) x y z (block_coords limit) (replicate header_size 0) [] of
        None \<Rightarrow> None
      | Some (Inl evs) \<Rightarrow> Some (say w evs)
      | Some (Inr (buf, evs)) \<Rightarrow>
          (let m = stamp_header buf x y z;
               offset = length buf;
               meta_path = fst (xyz_to_meta A x y z)
           in case open_wronly (say w evs) meta_path of
                None \<Rightarrow> Some (say (say w evs) [Error_creating meta_path])
              | Some w1 \<Rightarrow>
                  (case write_loop w1 meta_path m 0 offset of
                     Inl w2 \<Rightarrow> Some (say w2 [Writing_file])
                   | Inr w2 \<Rightarrow>
                       Some (unlink_tiles A (say w2 [Produced_meta meta_path]) x y z
                               (block_coords limit)))))"

definition process_meta :: "'p addressing \<Rightarrow> 'p world \<Rightarrow> int \<Rightarrow> int \<Rightarrow> int \<Rightarrow> 'p world option" where
  "process_meta A w x y z =
     (case block_limit z of
        None \<Rightarrow> None
      | Some limit \<Rightarrow> pack_block A w x y z limit)"

definition process_pack :: "'p addressing \<Rightarrow> 'p world \<Rightarrow> 'p \<Rightarrow> 'p world option" where
  "process_pack A w name =
     (case path_to_xyz A name of
        None \<Rightarrow> Some w
      | Some (x, y, z) \<Rightarrow>
          (case xyz_to_meta A x y z of
             (meta_path, meta_offset) \<Rightarrow>
               if meta_offset = 0 then process_meta A w x y z else Some w))"

section \<open>Unpacking a container\<close>

definition write_tile :: "'p addressing \<Rightarrow> 'p world \<Rightarrow> int \<Rightarrow> int \<Rightarrow> int \<Rightarrow> byte list \<Rightarrow> nat \<Rightarrow> 'p world" where
  "write_tile A w x y z buf sz =
     (let path = xyz_to_path A x y z
      in case open_wronly w path of
           None \<Rightarrow> say w [Error_creating path]
         | Some w1 \<Rightarrow>
             (case write_loop w1 path buf 0 sz of
                Inl w2 \<Rightarrow> say w2 [Writing_file]
              | Inr w2 \<Rightarrow> say w2 [Produced_tile path]))"

text \<open>
  The loops of \<^verbatim>\<open>process_unpack\<close>; \<^verbatim>\<open>write_tile\<close> gets the buffer and \<^verbatim>\<open>len\<close>, here
  the bytes \<^verbatim>\<open>read_from_meta\<close> stored and their number.
\<close>

fun unpack_tiles ::
  "'p addressing \<Rightarrow> 'p world \<Rightarrow> int \<Rightarrow> int \<Rightarrow> int \<Rightarrow> (nat \<times> nat) list \<Rightarrow> 'p world option" where
  "unpack_tiles A w x y z [] = Some w"
| "unpack_tiles A w x y z ((ox, oy) # cs) =
     (case read_from_meta A (files w) (x + int ox) (y + int oy) z unpack_buf_len of
        None \<Rightarrow> None
      | Some (len, buf, msgs) \<Rightarrow>
          unpack_tiles A
            (if len \<le> 0 then say (say w msgs) [Failed_to_get (x + int ox) (y + int oy) z]
             else write_tile A (say w msgs) (x + int ox) (y + int oy) z buf (nat len))
            x y z cs)"

text \<open>\<^verbatim>\<open>process_unpack\<close> from the loops on, for the \<^verbatim>\<open>limit\<close> it has computed.\<close>

definition unpack_block :: "'p addressing \<Rightarrow> 'p world \<Rightarrow> int \<Rightarrow> int \<Rightarrow> int \<Rightarrow> nat \<Rightarrow> 'p world option" where
  "unpack_block A w x y z limit =
     (case unpack_tiles A w x y z (block_coords limit) of
        None \<Rightarrow> None
      | Some w1 \<Rightarrow>
          (let meta_path = fst (xyz_to_meta A x y z)
           in case sys_unlink w1 meta_path of
                (r, w2) \<Rightarrow> Some (if r < 0 then say w2 [Unlink_failed meta_path] else w2)))"

definition process_unpack :: "'p addressing \<Rightarrow> 'p world \<Rightarrow> 'p \<Rightarrow> 'p world option" where
  "process_unpack A w name =
     (case path_to_xyz A name of
        None \<Rightarrow> Some w
      | Some (x, y, z) \<Rightarrow>
          (case block_limit z of
             None \<Rightarrow> None
           | Some limit \<Rightarrow> unpack_block A w x y z limit))"

text \<open>
  The diagnostics that end one pass of the inner loop of \<^verbatim>\<open>process_unpack\<close>: "Failed to
  get tile" of the loop itself, or one of the three of \<^verbatim>\<open>write_tile\<close>. Every pass prints
  exactly one of them, and neither \<^verbatim>\<open>read_from_meta\<close> nor the final \<^verbatim>\<open>unlink\<close> prints any.
\<close>

definition unpack_step :: "'p event \<Rightarrow> bool" where
  "unpack_step e =
     (case e of
        Failed_to_get a b c \<Rightarrow> True
      | Produced_tile p \<Rightarrow> True
      | Error_creating p \<Rightarrow> True
      | Writing_file \<Rightarrow> True
      | _ \<Rightarrow> False)"

section \<open>The packed buffer in closed form\<close>

text \<open>The path and the container address of the sub-tile \<open>(ox, oy)\<close> of the block at \<open>x, y, z\<close>.\<close>

definition sub_path :: "'p addressing \<Rightarrow> int \<Rightarrow> int \<Rightarrow> int \<Rightarrow> nat \<times> nat \<Rightarrow> 'p" where
  "sub_path A x y z c = xyz_to_path A (x + int (fst c)) (y + int (snd c)) z"

definition sub_meta :: "'p addressing \<Rightarrow> int \<Rightarrow> int \<Rightarrow> int \<Rightarrow> nat \<times> nat \<Rightarrow> 'p \<times> nat" where
  "sub_meta A x y z c = xyz_to_meta A (x + int (fst c)) (y + int (snd c)) z"

text \<open>
  What the first loop of \<^verbatim>\<open>process_meta\<close> records when no read stops it: for each
  sub-tile in turn the slot, the value of \<^verbatim>\<open>offset\<close> and the bytes read at it.
\<close>

fun pack_plan ::
  "'p addressing \<Rightarrow> 'p files \<Rightarrow> int \<Rightarrow> int \<Rightarrow> int \<Rightarrow> (nat \<times> nat) list \<Rightarrow> nat \<Rightarrow>
   (nat \<times> nat \<times> byte list) list" where
  "pack_plan A fs x y z [] off = []"
| "pack_plan A fs x y z (c # cs) off =
     (let data = fst (snd (read_from_file A fs (x + int (fst c)) (y + int (snd c)) z
                             (meta_buf_len - off)))
      in (snd (sub_meta A x y z c), off, data) # pack_plan A fs x y z cs (off + length data))"

fun apply_plan :: "(nat \<times> nat \<times> byte list) list \<Rightarrow> byte list \<Rightarrow> byte list" where
  "apply_plan [] buf = buf"
| "apply_plan ((slot, off, data) # ps) buf =
     apply_plan ps (set_index (buf @ data) slot (int off) (int (length data)))"

text \<open>Each recorded offset is where the bytes before it end.\<close>

fun chained :: "nat \<Rightarrow> (nat \<times> nat \<times> byte list) list \<Rightarrow> bool" where
  "chained off [] = True"
| "chained off ((slot, o', data) # ps) = (o' = off \<and> chained (off + length data) ps)"

text \<open>\<^verbatim>\<open>process_meta\<close> on a block, then \<^verbatim>\<open>process_unpack\<close> on a name of it.\<close>

definition pack_unpack :: "'p addressing \<Rightarrow> 'p world \<Rightarrow> int \<Rightarrow> int \<Rightarrow> int \<Rightarrow> 'p \<Rightarrow> 'p world option" where
  "pack_unpack A w x y z name =
     (case process_meta A w x y z of None \<Rightarrow> None | Some w1 \<Rightarrow> process_unpack A w1 name)"

definition file_after :: "'p world option \<Rightarrow> 'p \<Rightarrow> byte list option" where
  "file_after r p = (case r of None \<Rightarrow> None | Some w \<Rightarrow> files w p)"

section \<open>A sample of the collaborators\<close>

text \<open>
  An addressing for concrete runs: the container of a tile is named after the corner of
  its 8 x 8 block, the slot is the position in the block, x-major.
\<close>

datatype sample_path = Meta_file int int int | Tile_file int int int

definition sample_addressing :: "sample_path addressing" where
  "sample_addressing =
     \<lparr>xyz_to_meta = (\<lambda>x y z. (Meta_file (x - x mod 8) (y - y mod 8) z,
                                nat ((x mod 8) * 8 + y mod 8))),
      xyz_to_path = Tile_file,
      path_to_xyz = (\<lambda>p. case p of Meta_file x y z \<Rightarrow> Some (x, y, z)
                                  | Tile_file x y z \<Rightarrow> Some (x, y, z))\<rparr>"

definition no_files :: "sample_path files" where
  "no_files = (\<lambda>p. None)"

text \<open>
  A file of exactly \<^verbatim>\<open>sizeof(struct meta_layout)\<close> bytes with the right magic and
  count and no index table, and the same file with the first byte of the magic spoilt.
\<close>

definition short_container :: "byte list" where
  "short_container = META_MAGIC @ le32 64 @ le32 0 @ le32 0 @ le32 0"

definition short_bad_magic :: "byte list" where
  "short_bad_magic = 0 # tl short_container"

text \<open>
  A container for the block at (0, 0, 0), where \<^verbatim>\<open>limit\<close> is 1: the entry of slot 0
  records \<open>off\<close> and \<open>sz\<close>, and \<open>payload\<close> follows the index table.
\<close>

definition sample_container :: "int \<Rightarrow> int \<Rightarrow> byte list \<Rightarrow> byte list" where
  "sample_container off sz payload =
     stamp_header (set_index (replicate header_size 0 @ payload) 0 off sz) 0 0 0"

text \<open>
  Slot 0 holds the three bytes 7, 8, 9 that follow the index table; slot 0 points beyond
  the end of a container without payload; slot 0 records size 0 at offset -1; slot 0
  records size 0 at the end of the index table.
\<close>

definition tiny_container :: "byte list" where
  "tiny_container = sample_container (int header_size) 3 [7, 8, 9]"

definition far_container :: "byte list" where
  "far_container = sample_container 1000 3 []"

definition neg_container :: "byte list" where
  "neg_container = sample_container (- 1) 0 []"

definition zero_container :: "byte list" where
  "zero_container = sample_container (int header_size) 0 []"

text \<open>One standalone tile of 1 MiB + 1 bytes at (0, 0, 0).\<close>

definition big_world :: "sample_path world" where
  "big_world = \<lparr>files = no_files(Tile_file 0 0 0 \<mapsto> replicate 1048577 0), log = []\<rparr>"

text \<open>The four standalone tiles of the block at (0, 0, 1), where \<^verbatim>\<open>limit\<close> is 2.\<close>

definition four_tiles :: "sample_path world" where
  "four_tiles =
     \<lparr>files = no_files(Tile_file 0 0 1 \<mapsto> [1], Tile_file 0 1 1 \<mapsto> [2],
                       Tile_file 1 0 1 \<mapsto> [3], Tile_file 1 1 1 \<mapsto> [4, 5]),
      log = []\<rparr>"

section \<open>The loops and the readers in closed form\<close>

lemma read_loop_eq:
  "read_loop fd buf pos lim =
     Some (fd\<lparr>fd_off := fd_off fd + length (take (lim - pos) (drop (fd_off fd) (fd_bytes fd)))\<rparr>,
           buf @ take (lim - pos) (drop (fd_off fd) (fd_bytes fd)),
           pos + length (take (lim - pos) (drop (fd_off fd) (fd_bytes fd))))"
proof (cases "pos < lim")
  case False
  then show ?thesis by (subst read_loop.simps) simp
next
  case True
  define chunk where "chunk = take (lim - pos) (drop (fd_off fd) (fd_bytes fd))"
  show ?thesis
  proof (cases "chunk = []")
    case True
    with \<open>pos < lim\<close> show ?thesis
      by (subst read_loop.simps) (simp add: sys_read_def chunk_def)
  next
    case False
    have rest: "take (lim - (pos + length chunk)) (drop (fd_off fd + length chunk) (fd_bytes fd)) = []"
      using False unfolding chunk_def by (auto simp: min_def)
    have "read_loop fd buf pos lim =
            read_loop (fd\<lparr>fd_off := fd_off fd + length chunk\<rparr>) (buf @ chunk) (pos + length chunk) lim"
      using False \<open>pos < lim\<close>
      by (subst read_loop.simps) (simp add: sys_read_def chunk_def Let_def)
    also have "\<dots> = Some (fd\<lparr>fd_off := fd_off fd + length chunk\<rparr>, buf @ chunk, pos + length chunk)"
      by (subst read_loop.simps) (simp add: sys_read_def Let_def rest)
    finally show ?thesis by (simp add: chunk_def)
  qed
qed

lemma write_loop_eq:
  "pos < lim \<Longrightarrow> write_loop w path buf pos lim =
     Inr (w\<lparr>files := (files w)(path \<mapsto>
            (case files w path of None \<Rightarrow> [] | Some old \<Rightarrow> old) @ slice buf pos (lim - pos))\<rparr>)"
proof -
  assume lt: "pos < lim"
  define chunk where "chunk = slice buf pos (lim - pos)"
  define w' where "w' = w\<lparr>files := (files w)(path \<mapsto>
            (case files w path of None \<Rightarrow> [] | Some old \<Rightarrow> old) @ chunk)\<rparr>"
  show ?thesis
  proof (cases "chunk = []")
    case True
    with lt show ?thesis
      by (subst write_loop.simps) (simp add: sys_write_def chunk_def)
  next
    case False
    have step: "write_loop w path buf pos lim = write_loop w' path buf (pos + length chunk) lim"
      using False lt
      by (subst write_loop.simps) (simp add: sys_write_def chunk_def w'_def)
    have rest: "slice buf (pos + length chunk) (lim - (pos + length chunk)) = []"
      using False unfolding chunk_def slice_def by (auto simp: min_def)
    have "write_loop w' path buf (pos + length chunk) lim = Inr w'"
      by (subst write_loop.simps) (simp add: sys_write_def w'_def rest)
    with step show ?thesis by (simp add: w'_def chunk_def)
  qed
qed

lemma read_from_file_eq:
  "read_from_file A fs x y z sz =
     (case fs (xyz_to_path A x y z) of
        None \<Rightarrow> (- 1, [], [])
      | Some bs \<Rightarrow> (int (length (take sz bs)), take sz bs,
                    if length (take sz bs) = sz then [File_truncated (xyz_to_path A x y z) sz] else []))"
  by (simp add: read_from_file_def open_rdonly_def read_loop_eq Let_def split: option.splits)


lemma length_le32 [simp]: "length (le32 i) = 4"
  by (simp add: le32_def Let_def)

lemma unat_byte_of_nat: "unat (of_nat (n mod 256) :: byte) = n mod 256"
  by (simp add: unat_of_nat)

lemma int_of_le32_Cons:
  "int_of_le32 [a, b, c, d] =
     (if unat a + 256 * unat b + 65536 * unat c + 16777216 * unat d < 2 ^ 31
      then int (unat a + 256 * unat b + 65536 * unat c + 16777216 * unat d)
      else int (unat a + 256 * unat b + 65536 * unat c + 16777216 * unat d) - 2 ^ 32)"
proof -
  have nth: "[a, b, c, d] ! 0 = a" "[a, b, c, d] ! 1 = b" "[a, b, c, d] ! 2 = c"
    "[a, b, c, d] ! 3 = d"
    by simp_all
  show ?thesis by (simp only: int_of_le32_def Let_def nth)
qed

lemma int_of_le32_le32:
  assumes "- (2 ^ 31) \<le> i" "i < 2 ^ 31"
  shows "int_of_le32 (le32 i) = i"
proof -
  define n where "n = nat (i mod 2 ^ 32)"
  have n_lt: "n < 2 ^ 32" unfolding n_def by (simp add: nat_less_iff)
  have split: "n mod 256 + 256 * (n div 256 mod 256) + 65536 * (n div 65536 mod 256)
                + 16777216 * (n div 16777216 mod 256) = n"
  proof -
    define a1 a2 a3 where "a1 = n div 256" and "a2 = a1 div 256" and "a3 = a2 div 256"
    define m0 m1 m2 where "m0 = n mod 256" and "m1 = a1 mod 256" and "m2 = a2 mod 256"
    have d: "n div 65536 = a2" "n div 16777216 = a3"
      by (simp_all add: a1_def a2_def a3_def div_mult2_eq [symmetric])
    have "a3 < 256"
      using n_lt unfolding d(2) [symmetric] by (intro less_mult_imp_div_less) simp
    then have m3: "a3 mod 256 = a3" by simp
    have e: "m0 + 256 * a1 = n" "m1 + 256 * a2 = a1" "m2 + 256 * a3 = a2"
      by (simp_all only: m0_def m1_def m2_def a1_def a2_def a3_def mod_mult_div_eq)
    have "m0 + 256 * m1 + 65536 * m2 + 16777216 * a3 = n"
      using e by linarith
    then show ?thesis
      by (simp only: d m3 m0_def [symmetric] m1_def [symmetric] m2_def [symmetric]
            a1_def [symmetric])
  qed
  have "le32 i = [of_nat (n mod 256), of_nat (n div 256 mod 256),
          of_nat (n div 65536 mod 256), of_nat (n div 16777216 mod 256)]"
    by (simp only: le32_def Let_def n_def)
  then have val: "int_of_le32 (le32 i) = (if n < 2 ^ 31 then int n else int n - 2 ^ 32)"
    by (simp only: int_of_le32_Cons unat_byte_of_nat split)
  show ?thesis
  proof (cases "0 \<le> i")
    case True
    then have "int n = i" using assms by (simp add: n_def)
    with assms True show ?thesis by (simp add: val)
  next
    case False
    have "(i + 2 ^ 32) mod 2 ^ 32 = i + 2 ^ 32"
      using assms False by (intro mod_pos_pos_trivial) simp_all
    then have "i mod 2 ^ 32 = i + 2 ^ 32" by simp
    then have "int n = i + 2 ^ 32" using assms by (simp add: n_def)
    with assms False show ?thesis by (simp add: val)
  qed
qed

lemma int_of_le32_range: "- (2 ^ 31) \<le> int_of_le32 bs \<and> int_of_le32 bs < 2 ^ 31"
proof -
  define n where "n = unat (bs ! 0) + 256 * unat (bs ! 1) + 65536 * unat (bs ! 2)
              + 16777216 * unat (bs ! 3)"
  have b: "\<And>k. unat (bs ! k) < 256"
    using unsigned_less [where 'b = 8] by simp
  have "n < 2 ^ 32"
    unfolding n_def using b [of 0] b [of 1] b [of 2] b [of 3] by simp
  moreover have "int_of_le32 bs = (if n < 2 ^ 31 then int n else int n - 2 ^ 32)"
    by (simp only: int_of_le32_def Let_def n_def)
  ultimately show ?thesis by auto
qed

lemma off_t_size_t_int32:
  assumes "- (2 ^ 31) \<le> i" "i < 2 ^ 31"
  shows "off_t_of_size_t (size_t_of_int i) = i"
proof (cases "0 \<le> i")
  case True
  then have "i mod 2 ^ 64 = i" using assms by simp
  with True assms show ?thesis by (simp add: off_t_of_size_t_def size_t_of_int_def)
next
  case False
  have "(i + 2 ^ 64) mod 2 ^ 64 = i + 2 ^ 64"
    using assms False by (intro mod_pos_pos_trivial) simp_all
  then have "i mod 2 ^ 64 = i + 2 ^ 64" by simp
  with False assms show ?thesis by (simp add: off_t_of_size_t_def size_t_of_int_def nat_less_iff)
qed

lemma off_t_size_t_le32 [simp]:
  "off_t_of_size_t (size_t_of_int (int_of_le32 bs)) = int_of_le32 bs"
  using int_of_le32_range [of bs] by (intro off_t_size_t_int32) simp_all

lemma read_tile_bytes:
  "read_loop \<lparr>fd_bytes = bs, fd_off = off\<rparr> [] 0 n =
     Some (\<lparr>fd_bytes = bs, fd_off = off + length (take n (drop off bs))\<rparr>,
           take n (drop off bs), length (take n (drop off bs)))"
  by (simp add: read_loop_eq)

lemma read_from_meta_Some:
  assumes "xyz_to_meta A x y z = (path, slot)" "fs path = Some bs"
  shows "read_from_meta A fs x y z sz =
    (let header = take sizeof_header bs in
     if length header < sizeof_meta_layout then Some (- 3, [], [Meta_too_small path])
     else if take (length META_MAGIC) header \<noteq> META_MAGIC then Some (- 4, [], [Magic_mismatch path])
     else if m_count header \<noteq> int (METATILE * METATILE)
       then Some (- 5, [], [Bad_count path (m_count header)])
     else if length header < index_end slot then None
     else if index_offset header slot < 0 then Some (- 6, [], [Seek_error path])
     else
       (let tile_size = size_t_of_int (index_size header slot);
            data = take (min tile_size sz) (drop (nat (index_offset header slot)) bs)
        in Some (int (length data), data, if tile_size > sz then [Truncating tile_size sz] else [])))"
proof -
  define header where "header = take sizeof_header bs"
  define off where "off = index_offset header slot"
  define tile_size where "tile_size = size_t_of_int (index_size header slot)"
  have hd: "read_loop \<lparr>fd_bytes = bs, fd_off = 0\<rparr> [] 0 sizeof_header =
          Some (\<lparr>fd_bytes = bs, fd_off = length header\<rparr>, header, length header)"
    by (simp add: read_tile_bytes header_def)
  have conv: "off_t_of_size_t (size_t_of_int (index_offset header slot)) = off"
    by (simp add: off_def index_offset_def)
  have clamp: "(if sz < tile_size then sz else tile_size) = min tile_size sz"
    by (simp add: min_def)
  have seek: "0 \<le> off \<Longrightarrow>
      sys_lseek \<lparr>fd_bytes = bs, fd_off = length header\<rparr> off = (off, \<lparr>fd_bytes = bs, fd_off = nat off\<rparr>)"
    "off < 0 \<Longrightarrow>
      sys_lseek \<lparr>fd_bytes = bs, fd_off = length header\<rparr> off
        = (- 1, \<lparr>fd_bytes = bs, fd_off = length header\<rparr>)"
    by (simp_all add: sys_lseek_def)
  have "read_from_meta A fs x y z sz =
     (if length header < sizeof_meta_layout then Some (- 3, [], [Meta_too_small path])
      else if take (length META_MAGIC) header \<noteq> META_MAGIC then Some (- 4, [], [Magic_mismatch path])
      else if m_count header \<noteq> int (METATILE * METATILE)
        then Some (- 5, [], [Bad_count path (m_count header)])
      else if length header < index_end slot then None
      else if off < 0 then Some (- 6, [], [Seek_error path])
      else Some (int (length (take (min tile_size sz) (drop (nat off) bs))),
                 take (min tile_size sz) (drop (nat off) bs),
                 if tile_size > sz then [Truncating tile_size sz] else []))"
  proof (cases "off < 0")
    case True
    note s = seek(2) [OF this]
    show ?thesis
      using True
      by (simp add: read_from_meta_def assms open_rdonly_def hd conv s Let_def)
  next
    case False
    then have "0 \<le> off" by simp
    note s = seek(1) [OF this]
    show ?thesis
      using False
      by (simp add: read_from_meta_def assms open_rdonly_def hd conv s Let_def
            tile_size_def [symmetric] clamp read_tile_bytes [where off = "nat off"])
  qed
  then show ?thesis
    by (simp only: Let_def header_def off_def tile_size_def)
qed

lemma read_from_meta_None:
  assumes "xyz_to_meta A x y z = (path, slot)" "fs path = None"
  shows "read_from_meta A fs x y z sz = Some (- 1, [], [])"
  using assms by (simp add: read_from_meta_def open_rdonly_def)

lemma slice_take: "a + k \<le> n \<Longrightarrow> slice (take n bs) a k = slice bs a k"
  by (simp add: slice_def drop_take min_def)

lemma m_count_take: "8 \<le> n \<Longrightarrow> m_count (take n bs) = m_count bs"
  by (simp add: m_count_def slice_take)


lemma read_from_meta_bounds:
  assumes "read_from_meta A fs x y z sz = Some (r, buf, evs)"
  shows "r \<le> int sz \<and> length buf \<le> sz \<and> (0 \<le> r \<longrightarrow> r = int (length buf))"
proof -
  obtain path slot where ps: "xyz_to_meta A x y z = (path, slot)" by (cases "xyz_to_meta A x y z")
  show ?thesis
  proof (cases "fs path")
    case None
    from assms show ?thesis
      unfolding read_from_meta_None [where fs = fs, OF ps None] by auto
  next
    case (Some bs)
    from assms show ?thesis
      unfolding read_from_meta_Some [where fs = fs, OF ps Some] Let_def
      by (auto split: if_splits)
  qed
qed

section \<open>Buffers\<close>

lemma length_write_at:
  "off + length new \<le> length bs \<Longrightarrow> length (write_at bs off new) = length bs"
  by (simp add: write_at_def)

lemma slice_write_at_same:
  "off + length new \<le> length bs \<Longrightarrow> slice (write_at bs off new) off (length new) = new"
  by (simp add: write_at_def slice_def)

lemma slice_write_at_other:
  assumes "off + length new \<le> length bs" "a + k \<le> off \<or> off + length new \<le> a"
  shows "slice (write_at bs off new) a k = slice bs a k"
proof -
  from assms(2) show ?thesis
  proof
    assume "a + k \<le> off"
    then show ?thesis using assms(1)
      by (simp add: write_at_def slice_def take_drop min_def)
  next
    assume "off + length new \<le> a"
    then obtain d where a: "a = off + length new + d" using le_Suc_ex by blast
    show ?thesis using assms(1) unfolding a
      by (simp add: write_at_def slice_def drop_append add.commute add.left_commute flip: drop_drop)
  qed
qed

lemma write_at_append:
  "off + length new \<le> length bs \<Longrightarrow> write_at (bs @ cs) off new = write_at bs off new @ cs"
  by (simp add: write_at_def)

lemma drop_write_at:
  assumes "n \<le> length bs" "off + length new \<le> n"
  shows "drop n (write_at bs off new) = drop n bs"
proof -
  obtain d where n: "n = off + length new + d" using assms(2) le_Suc_ex by blast
  show ?thesis using assms(1) unfolding n
    by (simp add: write_at_def add.commute add.left_commute flip: drop_drop)
qed

lemma take_write_at:
  "n \<le> off \<Longrightarrow> off + length new \<le> length bs \<Longrightarrow> take n (write_at bs off new) = take n bs"
  by (simp add: write_at_def min_def)

section \<open>The header and the index table in a buffer\<close>

lemma length_META_MAGIC [simp]: "length META_MAGIC = 4"
  by (simp add: META_MAGIC_def)

lemma slice_append_left: "a + k \<le> length xs \<Longrightarrow> slice (xs @ ys) a k = slice xs a k"
  by (simp add: slice_def)

lemma slice_append_right: "length xs \<le> a \<Longrightarrow> slice (xs @ ys) a k = slice ys (a - length xs) k"
  by (simp add: slice_def)

lemma slice_whole: "length xs = k \<Longrightarrow> slice (xs @ ys) 0 k = xs"
  by (simp add: slice_def)

lemma stamp_header_eq:
  assumes "sizeof_meta_layout \<le> length buf"
  shows "stamp_header buf x y z =
           META_MAGIC @ le32 (int (METATILE * METATILE)) @ le32 x @ le32 y @ le32 z
             @ drop sizeof_meta_layout buf"
proof -
  have len: "20 \<le> length buf" using assms by (simp add: sizeof_meta_layout_def)
  define c where "c = le32 (int (METATILE * METATILE))"
  have lc: "length c = 4" by (simp add: c_def)
  have s1: "write_at buf 4 c = take 4 buf @ c @ drop 8 buf"
    using len by (simp add: write_at_def lc)
  have s2: "write_at (take 4 buf @ c @ drop 8 buf) 0 META_MAGIC = META_MAGIC @ c @ drop 8 buf"
    using len by (simp add: write_at_def)
  have s3: "write_at (META_MAGIC @ c @ drop 8 buf) 8 (le32 x) = META_MAGIC @ c @ le32 x @ drop 12 buf"
    using len by (simp add: write_at_def lc)
  have s4: "write_at (META_MAGIC @ c @ le32 x @ drop 12 buf) 12 (le32 y)
              = META_MAGIC @ c @ le32 x @ le32 y @ drop 16 buf"
    using len by (simp add: write_at_def lc)
  have s5: "write_at (META_MAGIC @ c @ le32 x @ le32 y @ drop 16 buf) 16 (le32 z)
              = META_MAGIC @ c @ le32 x @ le32 y @ le32 z @ drop 20 buf"
    using len by (simp add: write_at_def lc)
  show ?thesis
    unfolding stamp_header_def c_def [symmetric] s1 s2 s3 s4 s5
    by (simp add: sizeof_meta_layout_def)
qed

lemma header_fields:
  fixes rest :: "byte list"
  assumes h: "h = META_MAGIC @ le32 c @ le32 x @ le32 y @ le32 z @ rest"
  shows "take 4 h = META_MAGIC"
    and "length h = sizeof_meta_layout + length rest"
    and "- (2 ^ 31) \<le> c \<Longrightarrow> c < 2 ^ 31 \<Longrightarrow> m_count h = c"
    and "- (2 ^ 31) \<le> x \<Longrightarrow> x < 2 ^ 31 \<Longrightarrow> m_x h = x"
    and "- (2 ^ 31) \<le> y \<Longrightarrow> y < 2 ^ 31 \<Longrightarrow> m_y h = y"
    and "- (2 ^ 31) \<le> z \<Longrightarrow> z < 2 ^ 31 \<Longrightarrow> m_z h = z"
    and "drop sizeof_meta_layout h = rest"
  unfolding h
  by (simp_all add: m_count_def m_x_def m_y_def m_z_def slice_def int_of_le32_le32
        sizeof_meta_layout_def)

lemma length_stamp_header:
  "sizeof_meta_layout \<le> length buf \<Longrightarrow> length (stamp_header buf x y z) = length buf"
  by (simp add: stamp_header_eq sizeof_meta_layout_def)

lemma slice_stamp_header:
  assumes "sizeof_meta_layout \<le> length buf" "sizeof_meta_layout \<le> a"
  shows "slice (stamp_header buf x y z) a k = slice buf a k"
proof -
  obtain d where a: "a = 20 + d" using assms(2) le_Suc_ex by (auto simp: sizeof_meta_layout_def)
  show ?thesis
    unfolding stamp_header_eq [OF assms(1)] a
    by (simp add: slice_def sizeof_meta_layout_def add.commute flip: drop_drop)
qed

lemma drop_stamp_header:
  assumes "sizeof_meta_layout \<le> length buf" "sizeof_meta_layout \<le> n"
  shows "drop n (stamp_header buf x y z) = drop n buf"
proof -
  obtain d where n: "n = 20 + d" using assms(2) le_Suc_ex by (auto simp: sizeof_meta_layout_def)
  show ?thesis
    unfolding stamp_header_eq [OF assms(1)] n
    by (simp add: sizeof_meta_layout_def add.commute flip: drop_drop)
qed

lemma stamp_header_fields:
  assumes "sizeof_meta_layout \<le> length buf"
  shows "take 4 (stamp_header buf x y z) = META_MAGIC"
    and "m_count (stamp_header buf x y z) = int (METATILE * METATILE)"
    and "- (2 ^ 31) \<le> x \<Longrightarrow> x < 2 ^ 31 \<Longrightarrow> m_x (stamp_header buf x y z) = x"
    and "- (2 ^ 31) \<le> y \<Longrightarrow> y < 2 ^ 31 \<Longrightarrow> m_y (stamp_header buf x y z) = y"
    and "- (2 ^ 31) \<le> z \<Longrightarrow> z < 2 ^ 31 \<Longrightarrow> m_z (stamp_header buf x y z) = z"
  using header_fields [OF stamp_header_eq [OF assms]]
  by (simp_all add: METATILE_def)

lemma index_stamp_header:
  assumes "sizeof_meta_layout \<le> length buf"
  shows "index_offset (stamp_header buf x y z) i = index_offset buf i"
    and "index_size (stamp_header buf x y z) i = index_size buf i"
  by (simp_all add: index_offset_def index_size_def index_at_def slice_stamp_header [OF assms])

lemma index_end_le: "i < METATILE * METATILE \<Longrightarrow> index_end i \<le> header_size"
  by (simp add: index_end_def index_at_def header_size_def sizeof_entry_def)

lemma length_set_index:
  "index_end i \<le> length m \<Longrightarrow> length (set_index m i off sz) = length m"
  by (simp add: set_index_def length_write_at index_end_def sizeof_entry_def)

lemma index_set_index_same:
  assumes "index_end i \<le> length m"
  shows "- (2 ^ 31) \<le> off \<Longrightarrow> off < 2 ^ 31 \<Longrightarrow> index_offset (set_index m i off sz) i = off"
    and "- (2 ^ 31) \<le> sz \<Longrightarrow> sz < 2 ^ 31 \<Longrightarrow> index_size (set_index m i off sz) i = sz"
  using assms
  by (simp_all add: index_offset_def index_size_def set_index_def write_at_def slice_def
        index_end_def sizeof_entry_def int_of_le32_le32)

lemma index_set_index_other:
  assumes "index_end i \<le> length m" "j \<noteq> i"
  shows "index_offset (set_index m i off sz) j = index_offset m j"
    and "index_size (set_index m i off sz) j = index_size m j"
proof -
  have len: "index_at i + length (le32 off @ le32 sz) \<le> length m"
    using assms(1) by (simp add: index_end_def sizeof_entry_def)
  have "j < i \<or> i < j" using assms(2) by auto
  then have sep: "index_at j + 4 \<le> index_at i \<or> index_at i + length (le32 off @ le32 sz) \<le> index_at j"
    "index_at j + 4 + 4 \<le> index_at i \<or> index_at i + length (le32 off @ le32 sz) \<le> index_at j + 4"
    by (auto simp: index_at_def sizeof_entry_def)
  show "index_offset (set_index m i off sz) j = index_offset m j"
    unfolding index_offset_def set_index_def by (simp only: slice_write_at_other [OF len sep(1)])
  show "index_size (set_index m i off sz) j = index_size m j"
    unfolding index_size_def set_index_def by (simp only: slice_write_at_other [OF len sep(2)])
qed

lemma drop_set_index:
  "index_end i \<le> n \<Longrightarrow> n \<le> length m \<Longrightarrow> drop n (set_index m i off sz) = drop n m"
  by (simp add: set_index_def drop_write_at index_end_def sizeof_entry_def)

lemma set_index_append:
  "index_end i \<le> length m \<Longrightarrow> set_index (m @ d) i off sz = set_index m i off sz @ d"
  by (simp add: set_index_def write_at_append index_end_def sizeof_entry_def)

lemma index_take:
  "index_end i \<le> n \<Longrightarrow> index_offset (take n m) i = index_offset m i"
  "index_end i \<le> n \<Longrightarrow> index_size (take n m) i = index_size m i"
  by (simp_all add: index_offset_def index_size_def index_end_def sizeof_entry_def slice_take)

lemma read_from_meta_valid:
  assumes ps: "xyz_to_meta A x y z = (path, slot)" and bs: "fs path = Some bs"
    and magic: "take 4 bs = META_MAGIC" and count: "m_count bs = int (METATILE * METATILE)"
    and len: "index_end slot \<le> length bs" and slot: "index_end slot \<le> sizeof_header"
  shows "read_from_meta A fs x y z sz =
     (if index_offset bs slot < 0 then Some (- 6, [], [Seek_error path])
      else Some (int (length (take (min (size_t_of_int (index_size bs slot)) sz)
                                (drop (nat (index_offset bs slot)) bs))),
                 take (min (size_t_of_int (index_size bs slot)) sz)
                   (drop (nat (index_offset bs slot)) bs),
                 if size_t_of_int (index_size bs slot) > sz
                 then [Truncating (size_t_of_int (index_size bs slot)) sz] else []))"
proof -
  define header where "header = take sizeof_header bs"
  have e28: "28 \<le> index_end slot"
    by (simp add: index_end_def index_at_def sizeof_meta_layout_def sizeof_entry_def)
  have l: "index_end slot \<le> length header"
    using len slot by (simp add: header_def)
  then have l20: "\<not> length header < sizeof_meta_layout" "\<not> length header < index_end slot"
    using e28 by (simp_all add: sizeof_meta_layout_def)
  have m: "take 4 header = META_MAGIC"
    using magic slot e28 by (simp add: header_def min_def)
  have c: "m_count header = int (METATILE * METATILE)"
    using count slot e28 by (simp add: header_def m_count_take)
  have i: "index_offset header slot = index_offset bs slot"
    "index_size header slot = index_size bs slot"
    using slot by (simp_all add: header_def index_take)
  show ?thesis
    unfolding read_from_meta_Some [where fs = fs, OF ps bs] Let_def header_def [symmetric]
    using l20 m c by (simp add: i)
qed

section \<open>The sample files\<close>

lemma sample_meta_000 [simp]:
  "xyz_to_meta sample_addressing 0 0 0 = (Meta_file 0 0 0, 0)"
  by (simp add: sample_addressing_def)

lemma sample_path_simps [simp]:
  "xyz_to_path sample_addressing x y z = Tile_file x y z"
  "path_to_xyz sample_addressing (Meta_file x y z) = Some (x, y, z)"
  "path_to_xyz sample_addressing (Tile_file x y z) = Some (x, y, z)"
  by (simp_all add: sample_addressing_def)

lemma short_container_fields:
  "length short_container = 20" "take 4 short_container = META_MAGIC"
  "m_count short_container = 64"
proof -
  have h: "short_container = META_MAGIC @ le32 64 @ le32 0 @ le32 0 @ le32 0 @ []"
    by (simp add: short_container_def)
  show "length short_container = 20" "take 4 short_container = META_MAGIC"
    "m_count short_container = 64"
    using header_fields(1,2,3) [OF h] by (simp_all add: sizeof_meta_layout_def)
qed

lemma short_container_read:
  "read_from_meta sample_addressing (no_files(Meta_file 0 0 0 \<mapsto> short_container)) 0 0 0 sz
     = None"
  by (simp add: read_from_meta_Some [where path = "Meta_file 0 0 0" and slot = 0 and bs = short_container]
        short_container_fields sizeof_header_def sizeof_meta_layout_def METATILE_def index_end_def
        index_at_def sizeof_entry_def Let_def)

lemma short_bad_magic_read:
  "fs (Meta_file 0 0 0) = Some short_bad_magic \<Longrightarrow>
   read_from_meta sample_addressing fs 0 0 0 sz
     = Some (- 4, [], [Magic_mismatch (Meta_file 0 0 0)])"
  by (simp add: read_from_meta_Some [where path = "Meta_file 0 0 0" and slot = 0 and bs = short_bad_magic]
        short_bad_magic_def short_container_def META_MAGIC_def sizeof_header_def sizeof_meta_layout_def Let_def)

lemma header_size_532: "header_size = 532"
  by (simp add: header_size_def sizeof_meta_layout_def sizeof_entry_def METATILE_def)

lemma sample_container_fields:
  assumes "- (2 ^ 31) \<le> off" "off < 2 ^ 31" "- (2 ^ 31) \<le> sz" "sz < 2 ^ 31"
  shows "length (sample_container off sz payload) = 532 + length payload"
    and "take 4 (sample_container off sz payload) = META_MAGIC"
    and "m_count (sample_container off sz payload) = 64"
    and "index_offset (sample_container off sz payload) 0 = off"
    and "index_size (sample_container off sz payload) 0 = sz"
    and "drop 532 (sample_container off sz payload) = payload"
proof -
  define b0 :: "byte list" where "b0 = replicate header_size 0 @ payload"
  define b1 where "b1 = set_index b0 0 off sz"
  have ie: "index_end 0 = 28"
    by (simp add: index_end_def index_at_def sizeof_meta_layout_def sizeof_entry_def)
  have l0: "length b0 = 532 + length payload" by (simp add: b0_def header_size_532)
  have e0: "index_end 0 \<le> length b0" by (simp add: ie l0)
  have l1: "length b1 = 532 + length payload" by (simp add: b1_def length_set_index [OF e0] l0)
  have sm: "sizeof_meta_layout \<le> length b1" by (simp add: l1 sizeof_meta_layout_def)
  have t: "sample_container off sz payload = stamp_header b1 0 0 0"
    by (simp add: sample_container_def b1_def b0_def)
  show "length (sample_container off sz payload) = 532 + length payload"
    by (simp add: t length_stamp_header [OF sm] l1)
  show "take 4 (sample_container off sz payload) = META_MAGIC"
    by (simp add: t stamp_header_fields sm)
  show "m_count (sample_container off sz payload) = 64"
    by (simp add: t stamp_header_fields(2) [OF sm] METATILE_def)
  have io: "index_offset b1 0 = off" "index_size b1 0 = sz"
    unfolding b1_def using assms by (simp_all add: index_set_index_same [OF e0])
  show "index_offset (sample_container off sz payload) 0 = off"
    by (simp only: t index_stamp_header [OF sm] io)
  show "index_size (sample_container off sz payload) 0 = sz"
    by (simp only: t index_stamp_header [OF sm] io)
  have "drop 532 b1 = drop 532 b0"
    unfolding b1_def by (rule drop_set_index) (simp_all add: ie l0)
  moreover have "drop 532 b0 = payload" by (simp add: b0_def header_size_532)
  moreover have "drop 532 (stamp_header b1 0 0 0) = drop 532 b1"
    by (rule drop_stamp_header [OF sm]) (simp add: sizeof_meta_layout_def)
  ultimately show "drop 532 (sample_container off sz payload) = payload"
    by (simp only: t)
qed

lemma sample_container_read:
  assumes "- (2 ^ 31) \<le> off" "off < 2 ^ 31" "- (2 ^ 31) \<le> sz" "sz < 2 ^ 31"
    and "fs (Meta_file 0 0 0) = Some (sample_container off sz payload)"
  shows "read_from_meta sample_addressing fs 0 0 0 n =
     (if off < 0 then Some (- 6, [], [Seek_error (Meta_file 0 0 0)])
      else Some (int (length (take (min (size_t_of_int sz) n)
                                (drop (nat off) (sample_container off sz payload)))),
                 take (min (size_t_of_int sz) n) (drop (nat off) (sample_container off sz payload)),
                 if size_t_of_int sz > n then [Truncating (size_t_of_int sz) n] else []))"
proof -
  note f = sample_container_fields [OF assms(1-4), of payload]
  have "read_from_meta sample_addressing fs 0 0 0 n =
     (if index_offset (sample_container off sz payload) 0 < 0
      then Some (- 6, [], [Seek_error (Meta_file 0 0 0)])
      else Some (int (length (take (min (size_t_of_int
                   (index_size (sample_container off sz payload) 0)) n)
                   (drop (nat (index_offset (sample_container off sz payload) 0))
                      (sample_container off sz payload)))),
                 take (min (size_t_of_int (index_size (sample_container off sz payload) 0)) n)
                   (drop (nat (index_offset (sample_container off sz payload) 0))
                      (sample_container off sz payload)),
                 if size_t_of_int (index_size (sample_container off sz payload) 0) > n
                 then [Truncating (size_t_of_int (index_size (sample_container off sz payload) 0)) n]
                 else []))"
    by (rule read_from_meta_valid [where path = "Meta_file 0 0 0" and slot = 0])
       (simp_all add: assms(5) f METATILE_def sizeof_header_def index_end_def index_at_def
          sizeof_meta_layout_def sizeof_entry_def)
  then show ?thesis by (simp only: f(4,5))
qed

lemma tiny_container_fields:
  "length tiny_container = 535" "take 4 tiny_container = META_MAGIC"
  "m_count tiny_container = 64" "index_offset tiny_container 0 = 532"
  "index_size tiny_container 0 = 3" "drop 532 tiny_container = [7, 8, 9]"
  unfolding tiny_container_def header_size_532
  by (simp_all add: sample_container_fields)

lemma far_container_fields:
  "length far_container = 532" "take 4 far_container = META_MAGIC"
  "m_count far_container = 64" "index_offset far_container 0 = 1000"
  "index_size far_container 0 = 3"
  unfolding far_container_def
  by (simp_all add: sample_container_fields)

lemma neg_container_fields:
  "length neg_container = 532" "take 4 neg_container = META_MAGIC"
  "m_count neg_container = 64" "index_offset neg_container 0 = - 1"
  "index_size neg_container 0 = 0"
  unfolding neg_container_def
  by (simp_all add: sample_container_fields)

lemma zero_container_fields:
  "length zero_container = 532" "take 4 zero_container = META_MAGIC"
  "m_count zero_container = 64" "index_offset zero_container 0 = 532"
  "index_size zero_container 0 = 0"
  unfolding zero_container_def header_size_532
  by (simp_all add: sample_container_fields)

lemma sample_slot_0_in_header:
  "index_end 0 \<le> 532" "index_end 0 \<le> sizeof_header" "int (METATILE * METATILE) = 64"
  by (simp_all add: index_end_def index_at_def sizeof_meta_layout_def sizeof_entry_def
        sizeof_header_def METATILE_def)

lemma tiny_container_read:
  "fs (Meta_file 0 0 0) = Some tiny_container \<Longrightarrow>
   read_from_meta sample_addressing fs 0 0 0 16 = Some (3, [7, 8, 9], [])"
  unfolding tiny_container_def header_size_532
  by (subst sample_container_read [where off = 532 and sz = 3 and payload = "[7, 8, 9]"])
     (simp_all add: sample_container_fields(6) size_t_of_int_def)

lemma tiny_container_read_2:
  "fs (Meta_file 0 0 0) = Some tiny_container \<Longrightarrow>
   read_from_meta sample_addressing fs 0 0 0 2 = Some (2, [7, 8], [Truncating 3 2])"
  unfolding tiny_container_def header_size_532
  by (subst sample_container_read [where off = 532 and sz = 3 and payload = "[7, 8, 9]"])
     (simp_all add: sample_container_fields(6) size_t_of_int_def)

lemma far_container_read:
  "fs (Meta_file 0 0 0) = Some far_container \<Longrightarrow>
   read_from_meta sample_addressing fs 0 0 0 16 = Some (0, [], [])"
  unfolding far_container_def
  by (subst sample_container_read [where off = 1000 and sz = 3 and payload = "[]"])
     (simp_all add: sample_container_fields(1) size_t_of_int_def)

lemma neg_container_read:
  "fs (Meta_file 0 0 0) = Some neg_container \<Longrightarrow>
   read_from_meta sample_addressing fs 0 0 0 n = Some (- 6, [], [Seek_error (Meta_file 0 0 0)])"
  unfolding neg_container_def
  by (subst sample_container_read [where off = "- 1" and sz = 0 and payload = "[]"]) simp_all

section \<open>The unpack loop\<close>

lemma files_say [simp]: "files (say w evs) = files w"
  by (simp add: say_def)

lemma log_say [simp]: "log (say w evs) = log w @ evs"
  by (simp add: say_def)

lemma write_tile_eq:
  assumes "0 < sz"
  shows "write_tile A w x y z buf sz =
           w\<lparr>files := (files w)(xyz_to_path A x y z \<mapsto> take sz buf),
             log := log w @ [Produced_tile (xyz_to_path A x y z)]\<rparr>"
  using assms
  by (simp add: write_tile_def open_wronly_def write_loop_eq slice_def say_def Let_def)

lemma block_coords_1: "block_coords 1 = [(0, 0)]" "block_coords (Suc 0) = [(0, 0)]"
  by (simp_all add: block_coords_def)

lemma block_limit_0: "block_limit 0 = Some 1"
  by (simp add: block_limit_def shift_left_1_def METATILE_def)

lemma block_limit_range: "block_limit z = Some l \<Longrightarrow> 0 < l \<and> l \<le> METATILE"
  by (auto simp: block_limit_def shift_left_1_def METATILE_def split: if_splits)

lemma origin_in_block: "0 < l \<Longrightarrow> (0, 0) \<in> set (block_coords l)"
  by (simp add: block_coords_def)

lemma unpack_tiles_append:
  "unpack_tiles A w x y z (cs1 @ cs2) =
     (case unpack_tiles A w x y z cs1 of None \<Rightarrow> None | Some w1 \<Rightarrow> unpack_tiles A w1 x y z cs2)"
proof (induction cs1 arbitrary: w)
  case Nil
  show ?case by simp
next
  case (Cons c cs1)
  obtain ox oy where c: "c = (ox, oy)" by (cases c)
  show ?case
    by (simp add: c Cons.IH split: option.splits prod.splits)
qed

lemma unpack_tiles_frame:
  assumes "unpack_tiles A w x y z cs = Some w'"
    and "\<forall>(ox, oy) \<in> set cs. xyz_to_path A (x + int ox) (y + int oy) z \<noteq> p"
  shows "files w' p = files w p"
  using assms
proof (induction cs arbitrary: w)
  case Nil
  then show ?case by simp
next
  case (Cons c cs)
  obtain ox oy where c: "c = (ox, oy)" by (cases c)
  from Cons.prems(1) obtain len buf msgs where
    rd: "read_from_meta A (files w) (x + int ox) (y + int oy) z unpack_buf_len = Some (len, buf, msgs)"
    by (auto simp: c split: option.splits)
  define w1 where "w1 = (if len \<le> 0 then say (say w msgs) [Failed_to_get (x + int ox) (y + int oy) z]
             else write_tile A (say w msgs) (x + int ox) (y + int oy) z buf (nat len))"
  have rest: "unpack_tiles A w1 x y z cs = Some w'"
    using Cons.prems(1) by (simp add: c rd w1_def)
  have np: "xyz_to_path A (x + int ox) (y + int oy) z \<noteq> p"
    using Cons.prems(2) by (simp add: c)
  have "files w1 p = files w p"
    using np by (simp add: w1_def write_tile_eq)
  moreover have "files w' p = files w1 p"
    using Cons.IH [OF rest] Cons.prems(2) by simp
  ultimately show ?case by simp
qed

lemma unpack_tiles_log:
  assumes "unpack_tiles A w x y z cs = Some w'"
  shows "\<exists>evs. log w' = log w @ evs"
  using assms
proof (induction cs arbitrary: w)
  case Nil
  then show ?case by simp
next
  case (Cons c cs)
  obtain ox oy where c: "c = (ox, oy)" by (cases c)
  from Cons.prems(1) obtain len buf msgs where
    rd: "read_from_meta A (files w) (x + int ox) (y + int oy) z unpack_buf_len = Some (len, buf, msgs)"
    by (auto simp: c split: option.splits)
  define w1 where "w1 = (if len \<le> 0 then say (say w msgs) [Failed_to_get (x + int ox) (y + int oy) z]
             else write_tile A (say w msgs) (x + int ox) (y + int oy) z buf (nat len))"
  have rest: "unpack_tiles A w1 x y z cs = Some w'"
    using Cons.prems(1) by (simp add: c rd w1_def)
  have "\<exists>evs. log w1 = log w @ evs"
    by (simp add: w1_def write_tile_eq)
  moreover have "\<exists>evs. log w' = log w1 @ evs"
    by (rule Cons.IH [OF rest])
  ultimately show ?case by auto
qed

lemma unpack_tiles_all_fail:
  assumes "\<forall>(ox, oy) \<in> set cs. \<exists>r buf evs.
             read_from_meta A (files w) (x + int ox) (y + int oy) z unpack_buf_len = Some (r, buf, evs)
             \<and> r \<le> 0"
  shows "\<exists>w'. unpack_tiles A w x y z cs = Some w' \<and> files w' = files w"
  using assms
proof (induction cs arbitrary: w)
  case Nil
  then show ?case by simp
next
  case (Cons c cs)
  obtain ox oy where c: "c = (ox, oy)" by (cases c)
  from Cons.prems obtain r buf evs where
    rd: "read_from_meta A (files w) (x + int ox) (y + int oy) z unpack_buf_len = Some (r, buf, evs)"
    and r: "r \<le> 0"
    by (auto simp: c)
  define w1 where "w1 = say (say w evs) [Failed_to_get (x + int ox) (y + int oy) z]"
  have f1: "files w1 = files w" by (simp add: w1_def)
  have step: "unpack_tiles A w x y z (c # cs) = unpack_tiles A w1 x y z cs"
    using r by (simp add: c rd w1_def)
  have "\<exists>w'. unpack_tiles A w1 x y z cs = Some w' \<and> files w' = files w1"
    by (rule Cons.IH) (use Cons.prems in \<open>simp add: f1\<close>)
  then show ?case by (simp add: step f1)
qed

lemma process_unpack_Some:
  assumes "process_unpack A w name = Some w'" "path_to_xyz A name = Some (x, y, z)"
    "block_limit z = Some l"
  shows "\<exists>wl evs. unpack_tiles A w x y z (block_coords l) = Some wl \<and>
           files w' = (files wl)(fst (xyz_to_meta A x y z) := None) \<and> log w' = log wl @ evs"
proof -
  from assms obtain wl where wl: "unpack_tiles A w x y z (block_coords l) = Some wl"
    by (auto simp: process_unpack_def unpack_block_def split: option.splits)
  have "Some w' = (case sys_unlink wl (fst (xyz_to_meta A x y z)) of
               (r, w2) \<Rightarrow> Some (if r < 0 then say w2 [Unlink_failed (fst (xyz_to_meta A x y z))] else w2))"
    using assms by (simp add: process_unpack_def unpack_block_def wl Let_def)
  then have "files w' = (files wl)(fst (xyz_to_meta A x y z) := None) \<and> (\<exists>evs. log w' = log wl @ evs)"
    by (auto simp: sys_unlink_def split: option.splits)
  with wl show ?thesis by blast
qed

lemma distinct_block_coords: "distinct (block_coords l)"
  by (simp add: block_coords_def distinct_product)

section \<open>The pack loop\<close>



lemma block_coords_2: "block_coords 2 = [(0, 0), (0, 1), (1, 0), (1, 1)]"
  by (simp add: block_coords_def numeral_2_eq_2)

lemma block_limit_1: "block_limit 1 = Some 2"
  by (simp add: block_limit_def shift_left_1_def METATILE_def)

section \<open>The plan of a pack run\<close>

lemma sub_meta_pair: "sub_meta A x y z (ox, oy) = xyz_to_meta A (x + int ox) (y + int oy) z"
  by (simp add: sub_meta_def)

lemma sub_path_pair: "sub_path A x y z (ox, oy) = xyz_to_path A (x + int ox) (y + int oy) z"
  by (simp add: sub_path_def)

lemma pack_plan_slots:
  "map fst (pack_plan A fs x y z cs off) = map (\<lambda>c. snd (sub_meta A x y z c)) cs"
  by (induction cs arbitrary: off) (simp_all add: Let_def)

lemma length_pack_plan [simp]: "length (pack_plan A fs x y z cs off) = length cs"
  by (induction cs arbitrary: off) (simp_all add: Let_def)

lemma pack_plan_chained: "chained off (pack_plan A fs x y z cs off)"
  by (induction cs arbitrary: off) (simp_all add: Let_def)

lemma read_from_file_data_le:
  "length (fst (snd (read_from_file A fs x y z cap))) \<le> cap"
  by (simp add: read_from_file_eq split: option.splits)

lemma pack_plan_bound:
  assumes "off \<le> meta_buf_len" "(s, o', d) \<in> set (pack_plan A fs x y z cs off)"
  shows "o' + length d \<le> meta_buf_len"
  using assms
proof (induction cs arbitrary: off)
  case Nil
  then show ?case by simp
next
  case (Cons c cs)
  define data where "data = fst (snd (read_from_file A fs (x + int (fst c)) (y + int (snd c)) z
                             (meta_buf_len - off)))"
  have le: "length data \<le> meta_buf_len - off"
    unfolding data_def by (rule read_from_file_data_le)
  then have next_ok: "off + length data \<le> meta_buf_len" using Cons.prems(1) by simp
  from Cons.prems(2) have "(s, o', d) = (snd (sub_meta A x y z c), off, data) \<or>
      (s, o', d) \<in> set (pack_plan A fs x y z cs (off + length data))"
    by (simp add: data_def Let_def)
  then show ?case
  proof
    assume "(s, o', d) = (snd (sub_meta A x y z c), off, data)"
    then show ?thesis using next_ok by simp
  next
    assume "(s, o', d) \<in> set (pack_plan A fs x y z cs (off + length data))"
    then show ?thesis by (rule Cons.IH [OF next_ok])
  qed
qed

lemma chained_nth:
  assumes "chained off ps"
  shows "ps \<noteq> [] \<Longrightarrow> fst (snd (ps ! 0)) = off"
    and "Suc k < length ps \<Longrightarrow>
           fst (snd (ps ! Suc k)) = fst (snd (ps ! k)) + length (snd (snd (ps ! k)))"
    and "ps \<noteq> [] \<Longrightarrow> fst (snd (last ps)) + length (snd (snd (last ps)))
           = off + sum_list (map (\<lambda>p. length (snd (snd p))) ps)"
proof -
  show "ps \<noteq> [] \<Longrightarrow> fst (snd (ps ! 0)) = off"
    using assms by (cases ps) auto
  show "Suc k < length ps \<Longrightarrow>
           fst (snd (ps ! Suc k)) = fst (snd (ps ! k)) + length (snd (snd (ps ! k)))"
    using assms
  proof (induction ps arbitrary: off k)
    case Nil
    then show ?case by simp
  next
    case (Cons p ps)
    obtain s o' d where p: "p = (s, o', d)" by (cases p)
    from Cons.prems(2) have o': "o' = off" and ch: "chained (off + length d) ps"
      by (simp_all add: p)
    show ?case
    proof (cases k)
      case 0
      then have "ps \<noteq> []" using Cons.prems(1) by auto
      then obtain q qs where ps: "ps = q # qs" by (cases ps) auto
      obtain s2 o2 d2 where q: "q = (s2, o2, d2)" by (cases q)
      from ch have "o2 = off + length d" by (simp add: ps q)
      then show ?thesis by (simp add: 0 p ps q o')
    next
      case (Suc j)
      then have "Suc j < length ps" using Cons.prems(1) by simp
      from Cons.IH [OF this ch] show ?thesis by (simp add: Suc)
    qed
  qed
  show "ps \<noteq> [] \<Longrightarrow> fst (snd (last ps)) + length (snd (snd (last ps)))
           = off + sum_list (map (\<lambda>p. length (snd (snd p))) ps)"
    using assms
  proof (induction ps arbitrary: off)
    case Nil
    then show ?case by simp
  next
    case (Cons p ps)
    obtain s o' d where p: "p = (s, o', d)" by (cases p)
    from Cons.prems(2) have o': "o' = off" and ch: "chained (off + length d) ps"
      by (simp_all add: p)
    show ?case
    proof (cases "ps = []")
      case True
      then show ?thesis by (simp add: p o')
    next
      case False
      from Cons.IH [OF False ch] show ?thesis using False by (simp add: p)
    qed
  qed
qed

lemma index_append:
  assumes "index_end i \<le> length m"
  shows "index_offset (m @ d) i = index_offset m i" "index_size (m @ d) i = index_size m i"
  using assms
  by (simp_all add: index_offset_def index_size_def index_end_def sizeof_entry_def slice_append_left)

lemma plan_step:
  fixes d :: "byte list" and off n :: int
  assumes hs: "header_size \<le> length buf" and s: "s < METATILE * METATILE"
  defines "buf1 \<equiv> set_index (buf @ d) s off n"
  shows "length buf1 = length buf + length d"
    and "drop header_size buf1 = drop header_size buf @ d"
    and "drop (length buf) buf1 = d"
    and "i \<noteq> s \<Longrightarrow> i < METATILE * METATILE \<Longrightarrow> index_offset buf1 i = index_offset buf i"
    and "i \<noteq> s \<Longrightarrow> i < METATILE * METATILE \<Longrightarrow> index_size buf1 i = index_size buf i"
    and "- (2 ^ 31) \<le> off \<Longrightarrow> off < 2 ^ 31 \<Longrightarrow> index_offset buf1 s = off"
    and "- (2 ^ 31) \<le> n \<Longrightarrow> n < 2 ^ 31 \<Longrightarrow> index_size buf1 s = n"
proof -
  have e: "index_end s \<le> header_size" by (rule index_end_le [OF s])
  then have e1: "index_end s \<le> length buf" "index_end s \<le> length (buf @ d)"
    using hs by simp_all
  show "length buf1 = length buf + length d"
    by (simp add: buf1_def length_set_index [OF e1(2)])
  show "drop header_size buf1 = drop header_size buf @ d"
    unfolding buf1_def using hs e by (subst drop_set_index) simp_all
  show "drop (length buf) buf1 = d"
    unfolding buf1_def using e1(1) by (subst drop_set_index) simp_all
  show "index_offset buf1 i = index_offset buf i" if "i \<noteq> s" "i < METATILE * METATILE"
  proof -
    have "index_end i \<le> length buf" using index_end_le [OF that(2)] hs by simp
    then show ?thesis
      by (simp add: buf1_def index_set_index_other [OF e1(2) that(1)] index_append)
  qed
  show "index_size buf1 i = index_size buf i" if "i \<noteq> s" "i < METATILE * METATILE"
  proof -
    have "index_end i \<le> length buf" using index_end_le [OF that(2)] hs by simp
    then show ?thesis
      by (simp add: buf1_def index_set_index_other [OF e1(2) that(1)] index_append)
  qed
  show "- (2 ^ 31) \<le> off \<Longrightarrow> off < 2 ^ 31 \<Longrightarrow> index_offset buf1 s = off"
    by (simp add: buf1_def index_set_index_same [OF e1(2)])
  show "- (2 ^ 31) \<le> n \<Longrightarrow> n < 2 ^ 31 \<Longrightarrow> index_size buf1 s = n"
    by (simp add: buf1_def index_set_index_same [OF e1(2)])
qed

lemma apply_plan_length_drop:
  assumes "header_size \<le> length buf" "\<forall>p \<in> set ps. fst p < METATILE * METATILE"
  shows "length (apply_plan ps buf) = length buf + sum_list (map (\<lambda>p. length (snd (snd p))) ps) \<and>
         drop header_size (apply_plan ps buf)
           = drop header_size buf @ concat (map (\<lambda>p. snd (snd p)) ps)"
  using assms
proof (induction ps arbitrary: buf)
  case Nil
  then show ?case by simp
next
  case (Cons p ps)
  obtain s o' d where p: "p = (s, o', d)" by (cases p)
  have s: "s < METATILE * METATILE" using Cons.prems(2) by (simp add: p)
  define buf1 where "buf1 = set_index (buf @ d) s (int o') (int (length d))"
  note st = plan_step [OF Cons.prems(1) s, where d = d and off = "int o'" and n = "int (length d)",
      folded buf1_def]
  have hs1: "header_size \<le> length buf1" using st(1) Cons.prems(1) by simp
  have rest: "\<forall>p \<in> set ps. fst p < METATILE * METATILE" using Cons.prems(2) by simp
  from Cons.IH [OF hs1 rest] show ?case
    by (simp add: p buf1_def [symmetric] st(1,2))
qed

lemma apply_plan_index_other:
  assumes "header_size \<le> length buf" "\<forall>p \<in> set ps. fst p < METATILE * METATILE"
    and "i \<notin> fst ` set ps" "i < METATILE * METATILE"
  shows "index_offset (apply_plan ps buf) i = index_offset buf i \<and>
         index_size (apply_plan ps buf) i = index_size buf i"
  using assms(1,2,3)
proof (induction ps arbitrary: buf)
  case Nil
  then show ?case by simp
next
  case (Cons p ps)
  obtain s o' d where p: "p = (s, o', d)" by (cases p)
  have s: "s < METATILE * METATILE" using Cons.prems(2) by (simp add: p)
  have ne: "i \<noteq> s" using Cons.prems(3) by (auto simp: p)
  define buf1 where "buf1 = set_index (buf @ d) s (int o') (int (length d))"
  note st = plan_step [OF Cons.prems(1) s, where d = d and off = "int o'" and n = "int (length d)",
      folded buf1_def]
  have hs1: "header_size \<le> length buf1" using st(1) Cons.prems(1) by simp
  have rest: "\<forall>p \<in> set ps. fst p < METATILE * METATILE" "i \<notin> fst ` set ps"
    using Cons.prems(2,3) by simp_all
  from Cons.IH [OF hs1 rest] show ?case
    by (simp add: p buf1_def [symmetric] st(4,5) [OF ne assms(4)])
qed

lemma apply_plan_index_mem:
  assumes "header_size \<le> length buf" "\<forall>p \<in> set ps. fst p < METATILE * METATILE"
    and "distinct (map fst ps)" "(s, o', d) \<in> set ps"
    and "o' < 2 ^ 31" "length d < 2 ^ 31"
  shows "index_offset (apply_plan ps buf) s = int o' \<and>
         index_size (apply_plan ps buf) s = int (length d)"
  using assms(1,2,3,4)
proof (induction ps arbitrary: buf)
  case Nil
  then show ?case by simp
next
  case (Cons p ps)
  obtain s1 o1 d1 where p: "p = (s1, o1, d1)" by (cases p)
  have s1: "s1 < METATILE * METATILE" using Cons.prems(2) by (simp add: p)
  define buf1 where "buf1 = set_index (buf @ d1) s1 (int o1) (int (length d1))"
  note st = plan_step [OF Cons.prems(1) s1, where d = d1 and off = "int o1" and n = "int (length d1)",
      folded buf1_def]
  have hs1: "header_size \<le> length buf1" using st(1) Cons.prems(1) by simp
  have rest: "\<forall>p \<in> set ps. fst p < METATILE * METATILE" "distinct (map fst ps)"
    using Cons.prems(2,3) by simp_all
  have ap: "apply_plan (p # ps) buf = apply_plan ps buf1" by (simp add: p buf1_def)
  show ?case
  proof (cases "(s, o', d) \<in> set ps")
    case True
    from Cons.IH [OF hs1 rest True] show ?thesis by (simp add: ap)
  next
    case False
    then have eq: "s1 = s" "o1 = o'" "d1 = d" using Cons.prems(4) by (simp_all add: p)
    have notin: "s \<notin> fst ` set ps" using Cons.prems(3) by (simp add: p eq)
    have sl: "s < METATILE * METATILE" using s1 eq by simp
    from apply_plan_index_other [OF hs1 rest(1) notin sl]
    have "index_offset (apply_plan ps buf1) s = index_offset buf1 s"
      "index_size (apply_plan ps buf1) s = index_size buf1 s" by simp_all
    moreover have "index_offset buf1 s = int o'" "index_size buf1 s = int (length d)"
      using st(6,7) assms(5,6) by (simp_all add: eq)
    ultimately show ?thesis by (simp add: ap)
  qed
qed

lemma apply_plan_payload:
  assumes "header_size \<le> length buf" "\<forall>p \<in> set ps. fst p < METATILE * METATILE"
    and "chained (length buf) ps" "(s, o', d) \<in> set ps"
  shows "take (length d) (drop o' (apply_plan ps buf)) = d"
  using assms
proof (induction ps arbitrary: buf)
  case Nil
  then show ?case by simp
next
  case (Cons p ps)
  obtain s1 o1 d1 where p: "p = (s1, o1, d1)" by (cases p)
  have s1: "s1 < METATILE * METATILE" using Cons.prems(2) by (simp add: p)
  define buf1 where "buf1 = set_index (buf @ d1) s1 (int o1) (int (length d1))"
  note st = plan_step [OF Cons.prems(1) s1, where d = d1 and off = "int o1" and n = "int (length d1)",
      folded buf1_def]
  have hs1: "header_size \<le> length buf1" using st(1) Cons.prems(1) by simp
  have rest: "\<forall>p \<in> set ps. fst p < METATILE * METATILE" using Cons.prems(2) by simp
  have o1: "o1 = length buf" and ch: "chained (length buf1) ps"
    using Cons.prems(3) by (simp_all add: p st(1))
  have ap: "apply_plan (p # ps) buf = apply_plan ps buf1" by (simp add: p buf1_def)
  from Cons.prems(4) have "(s, o', d) = (s1, o1, d1) \<or> (s, o', d) \<in> set ps" by (simp add: p)
  then show ?case
  proof
    assume "(s, o', d) \<in> set ps"
    from Cons.IH [OF hs1 rest ch this] show ?thesis by (simp add: ap)
  next
    assume "(s, o', d) = (s1, o1, d1)"
    then have eq: "o' = length buf" "d = d1" using o1 by simp_all
    obtain k where k: "length buf = header_size + k"
      using Cons.prems(1) le_Suc_ex by blast
    from apply_plan_length_drop [OF hs1 rest]
    have "drop header_size (apply_plan ps buf1)
            = drop header_size buf1 @ concat (map (\<lambda>p. snd (snd p)) ps)" by simp
    then have "drop k (drop header_size (apply_plan ps buf1))
            = drop k (drop header_size buf1 @ concat (map (\<lambda>p. snd (snd p)) ps))" by simp
    also have "\<dots> = drop k (drop header_size buf1) @ concat (map (\<lambda>p. snd (snd p)) ps)"
      using st(1) k by simp
    finally have "drop (length buf) (apply_plan ps buf1)
            = drop (length buf) buf1 @ concat (map (\<lambda>p. snd (snd p)) ps)"
      by (simp add: k add.commute)
    then show ?thesis by (simp add: ap eq st(3))
  qed
qed

lemma read_from_file_positive:
  assumes "read_from_file A fs x y z cap = (len, data, msgs)"
  shows "0 < len \<longleftrightarrow> data \<noteq> []" and "0 < len \<Longrightarrow> len = int (length data)"
    and "\<forall>e \<in> set msgs. \<exists>p n. e = File_truncated p n"
  using assms by (auto simp: read_from_file_eq split: option.splits if_splits)

lemma pack_tiles_Inr:
  assumes "pack_tiles A fs x y z cs buf evs = Some (Inr (buf', evs'))" "header_size \<le> length buf"
  shows "buf' = apply_plan (pack_plan A fs x y z cs (length buf)) buf \<and>
         (\<forall>p \<in> set (pack_plan A fs x y z cs (length buf)).
            fst p < METATILE * METATILE \<and> snd (snd p) \<noteq> [])"
  using assms
proof (induction cs arbitrary: buf evs)
  case Nil
  then show ?case by simp
next
  case (Cons c cs)
  obtain ox oy where c: "c = (ox, oy)" by (cases c)
  obtain len data msgs where
    rd: "read_from_file A fs (x + int ox) (y + int oy) z (meta_buf_len - length buf) = (len, data, msgs)"
    by (cases "read_from_file A fs (x + int ox) (y + int oy) z (meta_buf_len - length buf)")
  obtain mp mt where mt: "xyz_to_meta A (x + int ox) (y + int oy) z = (mp, mt)"
    by (cases "xyz_to_meta A (x + int ox) (y + int oy) z")
  define buf1 where "buf1 = set_index (buf @ data) mt (int (length buf)) len"
  from Cons.prems(1) have pos: "0 < len" and slot: "mt < METATILE * METATILE"
    and rest: "pack_tiles A fs x y z cs buf1 (evs @ msgs) = Some (Inr (buf', evs'))"
    by (auto simp: c rd mt Let_def buf1_def split: if_splits)
  note rp = read_from_file_positive [OF rd]
  have len: "len = int (length data)" and ne: "data \<noteq> []" using rp pos by simp_all
  have l1: "length buf1 = length buf + length data"
    unfolding buf1_def by (rule plan_step(1) [OF Cons.prems(2) slot])
  then have hs1: "header_size \<le> length buf1" using Cons.prems(2) by simp
  have plan: "pack_plan A fs x y z (c # cs) (length buf)
                = (mt, length buf, data) # pack_plan A fs x y z cs (length buf1)"
    by (simp add: c rd sub_meta_def mt l1 Let_def)
  from Cons.IH [OF rest hs1] show ?case
    unfolding plan using slot ne by (simp add: buf1_def len)
qed

lemma pack_tiles_success:
  assumes "header_size \<le> length buf"
    and "\<forall>p \<in> set (pack_plan A fs x y z cs (length buf)).
            fst p < METATILE * METATILE \<and> snd (snd p) \<noteq> []"
  shows "\<exists>evs'. pack_tiles A fs x y z cs buf evs
            = Some (Inr (apply_plan (pack_plan A fs x y z cs (length buf)) buf, evs'))"
  using assms
proof (induction cs arbitrary: buf evs)
  case Nil
  then show ?case by simp
next
  case (Cons c cs)
  obtain ox oy where c: "c = (ox, oy)" by (cases c)
  obtain len data msgs where
    rd: "read_from_file A fs (x + int ox) (y + int oy) z (meta_buf_len - length buf) = (len, data, msgs)"
    by (cases "read_from_file A fs (x + int ox) (y + int oy) z (meta_buf_len - length buf)")
  obtain mp mt where mt: "xyz_to_meta A (x + int ox) (y + int oy) z = (mp, mt)"
    by (cases "xyz_to_meta A (x + int ox) (y + int oy) z")
  define buf1 where "buf1 = set_index (buf @ data) mt (int (length buf)) len"
  have plan0: "pack_plan A fs x y z (c # cs) (length buf)
                = (mt, length buf, data) # pack_plan A fs x y z cs (length buf + length data)"
    by (simp add: c rd sub_meta_def mt Let_def)
  have slot: "mt < METATILE * METATILE" and ne: "data \<noteq> []"
    using Cons.prems(2) unfolding plan0 by simp_all
  note rp = read_from_file_positive [OF rd]
  have pos: "0 < len" and len: "len = int (length data)" using rp ne by simp_all
  have l1: "length buf1 = length buf + length data"
    unfolding buf1_def by (rule plan_step(1) [OF Cons.prems(1) slot])
  then have hs1: "header_size \<le> length buf1" using Cons.prems(1) by simp
  have rest: "\<forall>p \<in> set (pack_plan A fs x y z cs (length buf1)).
            fst p < METATILE * METATILE \<and> snd (snd p) \<noteq> []"
    using Cons.prems(2) unfolding plan0 l1 by simp
  have step: "pack_tiles A fs x y z (c # cs) buf evs = pack_tiles A fs x y z cs buf1 (evs @ msgs)"
    using pos slot by (simp add: c rd mt Let_def buf1_def)
  from Cons.IH [OF hs1 rest, of "evs @ msgs"] show ?case
    unfolding step plan0 l1 [symmetric] by (simp add: buf1_def len)
qed

lemma pack_tiles_Inl_events:
  assumes "pack_tiles A fs x y z cs buf evs = Some (Inl e)" "Produced_meta p \<notin> set evs"
  shows "Produced_meta p \<notin> set e"
  using assms
proof (induction cs arbitrary: buf evs)
  case Nil
  then show ?case by simp
next
  case (Cons c cs)
  obtain ox oy where c: "c = (ox, oy)" by (cases c)
  obtain len data msgs where
    rd: "read_from_file A fs (x + int ox) (y + int oy) z (meta_buf_len - length buf) = (len, data, msgs)"
    by (cases "read_from_file A fs (x + int ox) (y + int oy) z (meta_buf_len - length buf)")
  obtain mp mt where mt: "xyz_to_meta A (x + int ox) (y + int oy) z = (mp, mt)"
    by (cases "xyz_to_meta A (x + int ox) (y + int oy) z")
  have msgs: "Produced_meta p \<notin> set msgs"
    using read_from_file_positive(3) [OF rd] by auto
  show ?case
  proof (cases "len \<le> 0")
    case True
    then have "e = evs @ msgs @ [Problem_reading x y z len]"
      using Cons.prems(1) by (simp add: c rd mt Let_def)
    then show ?thesis using Cons.prems(2) msgs by simp
  next
    case False
    then have "pack_tiles A fs x y z cs (set_index (buf @ data) mt (int (length buf)) len) (evs @ msgs)
                = Some (Inl e)"
      using Cons.prems(1) by (simp add: c rd mt Let_def split: if_splits)
    from Cons.IH [OF this] show ?thesis using Cons.prems(2) msgs by simp
  qed
qed

lemma unlink_tiles_files:
  "files (unlink_tiles A w x y z cs) p
     = (if p \<in> sub_path A x y z ` set cs then None else files w p)"
proof (induction cs arbitrary: w)
  case Nil
  show ?case by simp
next
  case (Cons c cs)
  obtain ox oy where c: "c = (ox, oy)" by (cases c)
  define path where "path = xyz_to_path A (x + int ox) (y + int oy) z"
  define w1 where "w1 = (case sys_unlink w path of
                           (r, w') \<Rightarrow> if r < 0 then say w' [Unlink_failed path] else w')"
  have f1: "files w1 q = (if q = path then None else files w q)" for q
    by (auto simp: w1_def sys_unlink_def split: option.splits)
  have step: "unlink_tiles A w x y z (c # cs) = unlink_tiles A w1 x y z cs"
    by (simp add: c w1_def path_def Let_def split: prod.splits)
  have sp: "sub_path A x y z c = path" by (simp add: c sub_path_def path_def)
  show ?case
    unfolding step Cons.IH f1 by (auto simp: sp)
qed

lemma process_meta_Inr:
  assumes "block_limit z = Some l"
    and "pack_tiles A (files w) x y z (block_coords l) (replicate header_size 0) []
           = Some (Inr (buf, evs))"
    and "header_size \<le> length buf"
  shows "process_meta A w x y z =
           Some (unlink_tiles A
                  (w\<lparr>files := (files w)(fst (xyz_to_meta A x y z) \<mapsto> stamp_header buf x y z),
                     log := log w @ evs @ [Produced_meta (fst (xyz_to_meta A x y z))]\<rparr>)
                  x y z (block_coords l))"
proof -
  have sm: "sizeof_meta_layout \<le> length buf"
    using assms(3) by (simp add: header_size_def)
  have pos: "0 < length buf" using assms(3) by (cases buf) (simp_all add: header_size_532)
  have whole: "slice (stamp_header buf x y z) 0 (length buf) = stamp_header buf x y z"
    by (simp add: slice_def length_stamp_header [OF sm])
  show ?thesis
    by (simp add: process_meta_def assms(1) pack_block_def assms(2) Let_def open_wronly_def
          write_loop_eq [OF pos] whole say_def)
qed

lemma chained_ge:
  assumes "chained off ps" "(s, o', d) \<in> set ps"
  shows "off \<le> o'"
  using assms
proof (induction ps arbitrary: off)
  case Nil
  then show ?case by simp
next
  case (Cons p ps)
  obtain s1 o1 d1 where p: "p = (s1, o1, d1)" by (cases p)
  from Cons.prems(1) have o1: "o1 = off" and ch: "chained (off + length d1) ps"
    by (simp_all add: p)
  from Cons.prems(2) have "(s, o', d) = (s1, o1, d1) \<or> (s, o', d) \<in> set ps" by (simp add: p)
  then show ?case
  proof
    assume "(s, o', d) = (s1, o1, d1)"
    then show ?thesis using o1 by simp
  next
    assume "(s, o', d) \<in> set ps"
    from Cons.IH [OF ch this] show ?thesis by simp
  qed
qed

lemma packed_entries:
  fixes A :: "'p addressing"
  assumes plan: "plan = pack_plan A fs x y z cs header_size"
    and buf: "buf = apply_plan plan (replicate header_size 0)"
    and slots: "\<forall>p \<in> set plan. fst p < METATILE * METATILE"
    and dist: "distinct (map (\<lambda>c. snd (sub_meta A x y z c)) cs)"
    and k: "k < length cs"
  shows "fst (plan ! k) = snd (sub_meta A x y z (cs ! k))"
    and "fst (snd (plan ! k)) + length (snd (snd (plan ! k))) \<le> meta_buf_len"
    and "index_offset (stamp_header buf x' y' z') (snd (sub_meta A x y z (cs ! k)))
           = int (fst (snd (plan ! k)))"
    and "index_size (stamp_header buf x' y' z') (snd (sub_meta A x y z (cs ! k)))
           = int (length (snd (snd (plan ! k))))"
    and "take (length (snd (snd (plan ! k))))
           (drop (fst (snd (plan ! k))) (stamp_header buf x' y' z')) = snd (snd (plan ! k))"
    and "header_size \<le> fst (snd (plan ! k))"
proof -
  obtain s o' d where pk: "plan ! k = (s, o', d)" by (cases "plan ! k")
  have kp: "k < length plan" using k by (simp add: plan)
  then have mem: "(s, o', d) \<in> set plan" using pk nth_mem by fastforce
  have "map fst plan ! k = map (\<lambda>c. snd (sub_meta A x y z c)) cs ! k"
    by (simp add: plan pack_plan_slots)
  then have s: "s = snd (sub_meta A x y z (cs ! k))" using kp k pk by simp
  show "fst (plan ! k) = snd (sub_meta A x y z (cs ! k))" by (simp add: pk s)
  have hm: "header_size \<le> meta_buf_len" by (simp add: header_size_532 meta_buf_len_def)
  have bound: "o' + length d \<le> meta_buf_len"
    using pack_plan_bound [OF hm] mem unfolding plan by blast
  then show "fst (snd (plan ! k)) + length (snd (snd (plan ! k))) \<le> meta_buf_len" by (simp add: pk)
  have small: "o' < 2 ^ 31" "length d < 2 ^ 31"
    using bound by (simp_all add: meta_buf_len_def)
  have h0: "header_size \<le> length (replicate header_size (0 :: byte))" by simp
  have dp: "distinct (map fst plan)" using dist by (simp add: plan pack_plan_slots)
  from apply_plan_index_mem [OF h0 slots dp mem small]
  have e: "index_offset buf s = int o'" "index_size buf s = int (length d)"
    by (simp_all add: buf)
  have lb: "header_size \<le> length buf"
    using apply_plan_length_drop [OF h0 slots] by (simp add: buf)
  then have sm: "sizeof_meta_layout \<le> length buf" by (simp add: header_size_def)
  show "index_offset (stamp_header buf x' y' z') (snd (sub_meta A x y z (cs ! k)))
           = int (fst (snd (plan ! k)))"
    by (simp add: index_stamp_header [OF sm] s [symmetric] e pk)
  show "index_size (stamp_header buf x' y' z') (snd (sub_meta A x y z (cs ! k)))
           = int (length (snd (snd (plan ! k))))"
    by (simp add: index_stamp_header [OF sm] s [symmetric] e pk)
  have ch: "chained (length (replicate header_size (0 :: byte))) plan"
    by (simp add: plan pack_plan_chained)
  have pay: "take (length d) (drop o' buf) = d"
    unfolding buf by (rule apply_plan_payload [OF h0 slots ch mem])
  have o_ge: "header_size \<le> o'"
    using chained_ge [OF ch mem] by simp
  show "header_size \<le> fst (snd (plan ! k))" by (simp add: pk o_ge)
  have "sizeof_meta_layout \<le> o'" using o_ge by (simp add: header_size_def)
  from drop_stamp_header [OF sm this]
  show "take (length (snd (snd (plan ! k))))
           (drop (fst (snd (plan ! k))) (stamp_header buf x' y' z')) = snd (snd (plan ! k))"
    by (simp add: pk pay)
qed

lemma unlink_tiles_log: "\<exists>e. log (unlink_tiles A w x y z cs) = log w @ e"
proof (induction cs arbitrary: w)
  case Nil
  show ?case by simp
next
  case (Cons c cs)
  obtain ox oy where c: "c = (ox, oy)" by (cases c)
  define path where "path = xyz_to_path A (x + int ox) (y + int oy) z"
  define w1 where "w1 = (case sys_unlink w path of
                           (r, w') \<Rightarrow> if r < 0 then say w' [Unlink_failed path] else w')"
  have l1: "\<exists>e. log w1 = log w @ e"
    by (auto simp: w1_def sys_unlink_def split: option.splits)
  have step: "unlink_tiles A w x y z (c # cs) = unlink_tiles A w1 x y z cs"
    by (simp add: c w1_def path_def Let_def split: prod.splits)
  from Cons.IH [of w1] l1 show ?case unfolding step by auto
qed

lemma block_coords_nonempty: "0 < l \<Longrightarrow> block_coords l \<noteq> []"
  using origin_in_block [of l] by auto

lemma process_meta_cases:
  assumes run: "process_meta A w x y z = Some w'" and l: "block_limit z = Some l"
    and ok: "Produced_meta mp \<in> set (drop (length (log w)) (log w'))"
  shows "\<exists>buf evs. pack_tiles A (files w) x y z (block_coords l) (replicate header_size 0) []
           = Some (Inr (buf, evs))"
proof (cases "pack_tiles A (files w) x y z (block_coords l) (replicate header_size 0) []")
  case None
  then show ?thesis using run by (simp add: process_meta_def l pack_block_def)
next
  case (Some r)
  show ?thesis
  proof (cases r)
    case (Inl e)
    then have "w' = say w e" using run Some by (simp add: process_meta_def l pack_block_def)
    then have "Produced_meta mp \<in> set e" using ok by simp
    moreover have "Produced_meta mp \<notin> set e"
      by (rule pack_tiles_Inl_events [where evs = "[]"]) (use Some Inl in simp_all)
    ultimately show ?thesis by simp
  next
    case (Inr r2)
    then show ?thesis using Some by (cases r2) simp
  qed
qed

lemma process_meta_success:
  assumes l: "block_limit z = Some l"
    and good: "\<forall>p \<in> set (pack_plan A (files w) x y z (block_coords l) header_size).
                 fst p < METATILE * METATILE \<and> snd (snd p) \<noteq> []"
  shows "\<exists>w' evs e. process_meta A w x y z = Some w' \<and>
           log w' = log w @ evs @ [Produced_meta (fst (xyz_to_meta A x y z))] @ e \<and>
           (\<forall>p. files w' p =
              (if p \<in> sub_path A x y z ` set (block_coords l) then None
               else ((files w)(fst (xyz_to_meta A x y z) \<mapsto>
                      stamp_header (apply_plan (pack_plan A (files w) x y z (block_coords l) header_size)
                                      (replicate header_size 0)) x y z)) p))"
proof -
  define plan where "plan = pack_plan A (files w) x y z (block_coords l) header_size"
  define mp where "mp = fst (xyz_to_meta A x y z)"
  have h0: "header_size \<le> length (replicate header_size (0 :: byte))" by simp
  have good': "\<forall>p \<in> set (pack_plan A (files w) x y z (block_coords l)
                            (length (replicate header_size (0 :: byte)))).
                 fst p < METATILE * METATILE \<and> snd (snd p) \<noteq> []"
    using good by simp
  from pack_tiles_success [OF h0 good', of "[]"] obtain evs where
    pk: "pack_tiles A (files w) x y z (block_coords l) (replicate header_size 0) []
           = Some (Inr (apply_plan plan (replicate header_size 0), evs))"
    by (auto simp: plan_def)
  have slots: "\<forall>p \<in> set plan. fst p < METATILE * METATILE" using good by (simp add: plan_def)
  have lb: "header_size \<le> length (apply_plan plan (replicate header_size 0))"
    using apply_plan_length_drop [OF h0 slots] by simp
  define w1 where "w1 = w\<lparr>files := (files w)(mp \<mapsto>
        stamp_header (apply_plan plan (replicate header_size 0)) x y z),
      log := log w @ evs @ [Produced_meta mp]\<rparr>"
  have run: "process_meta A w x y z = Some (unlink_tiles A w1 x y z (block_coords l))"
    using process_meta_Inr [OF l pk lb] by (simp add: w1_def mp_def)
  obtain e where e: "log (unlink_tiles A w1 x y z (block_coords l)) = log w1 @ e"
    using unlink_tiles_log by blast
  have lw1: "log w1 = log w @ evs @ [Produced_meta mp]"
    and fw1: "files w1 = (files w)(mp \<mapsto> stamp_header (apply_plan plan (replicate header_size 0)) x y z)"
    by (simp_all add: w1_def)
  have "log (unlink_tiles A w1 x y z (block_coords l)) = log w @ evs @ [Produced_meta mp] @ e"
    by (simp add: e lw1)
  moreover have "\<forall>p. files (unlink_tiles A w1 x y z (block_coords l)) p =
              (if p \<in> sub_path A x y z ` set (block_coords l) then None
               else ((files w)(mp \<mapsto> stamp_header (apply_plan plan (replicate header_size 0)) x y z)) p)"
    by (simp only: unlink_tiles_files fw1) simp
  ultimately show ?thesis
    using run unfolding plan_def mp_def by blast
qed

section \<open>Packing, then unpacking\<close>

lemma pack_plan_whole:
  assumes "off + sum_list (map (\<lambda>c. length (the (fs (sub_path A x y z c)))) cs) \<le> meta_buf_len"
    and "\<forall>c \<in> set cs. \<exists>bs. fs (sub_path A x y z c) = Some bs"
  shows "map (\<lambda>p. snd (snd p)) (pack_plan A fs x y z cs off)
           = map (\<lambda>c. the (fs (sub_path A x y z c))) cs"
  using assms
proof (induction cs arbitrary: off)
  case Nil
  show ?case by simp
next
  case (Cons c cs)
  from Cons.prems(2) obtain bs where bs: "fs (sub_path A x y z c) = Some bs" by auto
  have fit: "length bs \<le> meta_buf_len - off" using Cons.prems(1) by (simp add: bs)
  have data: "fst (snd (read_from_file A fs (x + int (fst c)) (y + int (snd c)) z (meta_buf_len - off)))
                = bs"
    using bs fit by (simp add: read_from_file_eq sub_path_def)
  have rest: "off + length bs + sum_list (map (\<lambda>c. length (the (fs (sub_path A x y z c)))) cs)
                \<le> meta_buf_len"
    using Cons.prems(1) by (simp add: bs)
  from Cons.IH [OF rest] Cons.prems(2) show ?case
    by (simp add: data bs Let_def)
qed

lemma unpack_tiles_writes:
  assumes "files w mp = Some m"
    and "\<forall>c \<in> set cs. sub_path A x y z c \<noteq> mp"
    and "\<forall>c \<in> set cs. h (sub_path A x y z c) \<noteq> [] \<and>
           (\<forall>fs'. fs' mp = Some m \<longrightarrow>
              (\<exists>evs. read_from_meta A fs' (x + int (fst c)) (y + int (snd c)) z unpack_buf_len
                 = Some (int (length (h (sub_path A x y z c))), h (sub_path A x y z c), evs)))"
  shows "\<exists>w'. unpack_tiles A w x y z cs = Some w' \<and>
           (\<forall>p. files w' p = (if p \<in> sub_path A x y z ` set cs then Some (h p) else files w p))"
  using assms
proof (induction cs arbitrary: w)
  case Nil
  then show ?case by simp
next
  case (Cons c cs)
  obtain ox oy where c: "c = (ox, oy)" by (cases c)
  define t where "t = sub_path A x y z c"
  have tp: "t = xyz_to_path A (x + int ox) (y + int oy) z" by (simp add: t_def c sub_path_def)
  have ne: "h t \<noteq> []" and tm: "t \<noteq> mp" using Cons.prems(2,3) by (simp_all add: t_def)
  from Cons.prems(1,3) obtain evs where
    rd: "read_from_meta A (files w) (x + int ox) (y + int oy) z unpack_buf_len
           = Some (int (length (h t)), h t, evs)"
    unfolding t_def c by fastforce
  define w1 where "w1 = write_tile A (say w evs) (x + int ox) (y + int oy) z (h t) (length (h t))"
  have pos: "0 < length (h t)" using ne by simp
  have f1: "files w1 = (files w)(t \<mapsto> h t)"
    unfolding w1_def write_tile_eq [OF pos] by (simp add: tp)
  have step: "unpack_tiles A w x y z (c # cs) = unpack_tiles A w1 x y z cs"
    using pos by (simp add: c rd w1_def)
  have m1: "files w1 mp = Some m" using Cons.prems(1) tm by (simp add: f1)
  from Cons.IH [OF m1] Cons.prems(2,3) obtain w' where
    w': "unpack_tiles A w1 x y z cs = Some w'"
    and fw': "\<forall>p. files w' p = (if p \<in> sub_path A x y z ` set cs then Some (h p) else files w1 p)"
    by auto
  have "\<forall>p. files w' p = (if p \<in> sub_path A x y z ` set (c # cs) then Some (h p) else files w p)"
    using fw' by (auto simp: f1 t_def)
  with w' show ?case unfolding step by blast
qed

lemma size_t_of_int_nat: "n < 2 ^ 64 \<Longrightarrow> size_t_of_int (int n) = n"
  by (simp add: size_t_of_int_def)

lemma container_read:
  fixes A :: "'p addressing"
  assumes plan: "plan = pack_plan A fs x y z cs header_size"
    and buf: "buf = apply_plan plan (replicate header_size 0)"
    and slots: "\<forall>p \<in> set plan. fst p < METATILE * METATILE"
    and dist: "distinct (map (\<lambda>c. snd (sub_meta A x y z c)) cs)"
    and k: "k < length cs"
    and ps: "sub_meta A x y z (cs ! k) = (mp, s)"
    and cont: "fs' mp = Some (stamp_header buf x y z)"
  shows "\<exists>evs. read_from_meta A fs' (x + int (fst (cs ! k))) (y + int (snd (cs ! k))) z sz
           = Some (int (length (take sz (snd (snd (plan ! k))))), take sz (snd (snd (plan ! k))), evs)"
proof -
  define m where "m = stamp_header buf x y z"
  define o' where "o' = fst (snd (plan ! k))"
  define d where "d = snd (snd (plan ! k))"
  note pe = packed_entries(3,4,5) [OF plan buf slots dist k, where x' = x and y' = y and z' = z,
      folded m_def o'_def d_def]
  note pb = packed_entries(1,2) [OF plan buf slots dist k, folded o'_def d_def]
  have s: "s = snd (sub_meta A x y z (cs ! k))" by (simp add: ps)
  have kp: "plan ! k \<in> set plan" using k by (simp add: plan)
  have sl: "s < METATILE * METATILE" using slots kp pb(1) s by auto
  have h0: "header_size \<le> length (replicate header_size (0 :: byte))" by simp
  have lb: "header_size \<le> length buf"
    using apply_plan_length_drop [OF h0 slots] by (simp add: buf)
  then have sm: "sizeof_meta_layout \<le> length buf" by (simp add: header_size_def)
  have lm: "length m = length buf" by (simp add: m_def length_stamp_header [OF sm])
  have ie: "index_end s \<le> length m" "index_end s \<le> sizeof_header"
    using index_end_le [OF sl] lb lm by (simp_all add: header_size_532 sizeof_header_def)
  have magic: "take 4 m = META_MAGIC" and count: "m_count m = int (METATILE * METATILE)"
    using stamp_header_fields(1,2) [OF sm, of x y z] by (simp_all add: m_def)
  have xm: "xyz_to_meta A (x + int (fst (cs ! k))) (y + int (snd (cs ! k))) z = (mp, s)"
    using ps by (simp add: sub_meta_def)
  have off: "index_offset m s = int o'" and size: "index_size m s = int (length d)"
    using pe(1,2) by (simp_all add: s)
  have "length d \<le> meta_buf_len" using pb(2) by simp
  then have st: "size_t_of_int (int (length d)) = length d"
    by (intro size_t_of_int_nat) (simp add: meta_buf_len_def)
  have data: "take (min (length d) sz) (drop o' m) = take sz d"
  proof -
    have "take sz (take (length d) (drop o' m)) = take sz d" by (simp only: pe(3))
    then show ?thesis by (simp add: min.commute)
  qed
  show ?thesis
    unfolding d_def [symmetric]
      read_from_meta_valid [where fs = fs', OF xm cont [folded m_def] magic count ie]
    by (simp add: off size st data)
qed

lemma roundtrip_general:
  fixes A :: "'p addressing"
  assumes l: "block_limit z = Some l"
    and name: "path_to_xyz A name = Some (x, y, z)"
    and meta: "\<forall>c \<in> set (block_coords l).
                 fst (sub_meta A x y z c) = fst (xyz_to_meta A x y z) \<and>
                 snd (sub_meta A x y z c) < METATILE * METATILE"
    and dist: "distinct (map (\<lambda>c. snd (sub_meta A x y z c)) (block_coords l))"
    and sep: "\<forall>c \<in> set (block_coords l). sub_path A x y z c \<noteq> fst (xyz_to_meta A x y z)"
    and tiles: "\<forall>c \<in> set (block_coords l). \<exists>bs. files w (sub_path A x y z c) = Some bs \<and> bs \<noteq> []"
    and fit: "header_size + sum_list (map (\<lambda>c. length (the (files w (sub_path A x y z c))))
                (block_coords l)) \<le> meta_buf_len"
  shows "\<exists>w2. pack_unpack A w x y z name = Some w2 \<and>
           (\<forall>p. files w2 p =
              (if p = fst (xyz_to_meta A x y z) then None
               else if p \<in> sub_path A x y z ` set (block_coords l)
                 then Some (take unpack_buf_len (the (files w p)))
               else files w p))"
proof -
  define cs where "cs = block_coords l"
  define mp where "mp = fst (xyz_to_meta A x y z)"
  define plan where "plan = pack_plan A (files w) x y z cs header_size"
  define buf where "buf = apply_plan plan (replicate header_size 0)"
  define m where "m = stamp_header buf x y z"
  define h where "h = (\<lambda>p. take unpack_buf_len (the (files w p)))"
  note meta' = meta [folded cs_def mp_def] and dist' = dist [folded cs_def]
    and sep' = sep [folded cs_def mp_def] and tiles' = tiles [folded cs_def]
  have lp: "length plan = length cs" by (simp add: plan_def)
  have present: "\<forall>c \<in> set cs. \<exists>bs. files w (sub_path A x y z c) = Some bs"
    using tiles' by blast
  have whole: "map (\<lambda>p. snd (snd p)) plan = map (\<lambda>c. the (files w (sub_path A x y z c))) cs"
    unfolding plan_def by (rule pack_plan_whole [OF fit [folded cs_def] present])
  have slots_eq: "map fst plan = map (\<lambda>c. snd (sub_meta A x y z c)) cs"
    by (simp add: plan_def pack_plan_slots)
  have nth_data: "snd (snd (plan ! k)) = the (files w (sub_path A x y z (cs ! k)))"
    and nth_slot: "fst (plan ! k) = snd (sub_meta A x y z (cs ! k))" if "k < length cs" for k
  proof -
    have "map (\<lambda>p. snd (snd p)) plan ! k = map (\<lambda>c. the (files w (sub_path A x y z c))) cs ! k"
      by (simp only: whole)
    then show "snd (snd (plan ! k)) = the (files w (sub_path A x y z (cs ! k)))"
      using that lp by simp
    have "map fst plan ! k = map (\<lambda>c. snd (sub_meta A x y z c)) cs ! k"
      by (simp only: slots_eq)
    then show "fst (plan ! k) = snd (sub_meta A x y z (cs ! k))"
      using that lp by simp
  qed
  have good: "\<forall>p \<in> set plan. fst p < METATILE * METATILE \<and> snd (snd p) \<noteq> []"
  proof
    fix p assume "p \<in> set plan"
    then obtain k where k: "k < length cs" "plan ! k = p"
      using lp by (auto simp: in_set_conv_nth)
    have c: "cs ! k \<in> set cs" using k(1) by simp
    have "fst p < METATILE * METATILE" using nth_slot [OF k(1)] meta' c k(2) by auto
    moreover have "snd (snd p) \<noteq> []" using nth_data [OF k(1)] tiles' c k(2) by fastforce
    ultimately show "fst p < METATILE * METATILE \<and> snd (snd p) \<noteq> []" by simp
  qed
  then have slots: "\<forall>p \<in> set plan. fst p < METATILE * METATILE" by simp
  from process_meta_success [OF l good [unfolded plan_def cs_def]]
  obtain w1 where pm: "process_meta A w x y z = Some w1"
    and f1: "\<forall>p. files w1 p = (if p \<in> sub_path A x y z ` set cs then None
                                else ((files w)(mp \<mapsto> m)) p)"
    unfolding m_def buf_def plan_def cs_def mp_def by blast
  have mp_out: "mp \<notin> sub_path A x y z ` set cs" using sep' by auto
  then have cont: "files w1 mp = Some m" using f1 by simp
  have ubl: "0 < unpack_buf_len" by (simp add: unpack_buf_len_def)
  have reads: "\<forall>c \<in> set cs. h (sub_path A x y z c) \<noteq> [] \<and>
           (\<forall>fs'. fs' mp = Some m \<longrightarrow>
              (\<exists>evs. read_from_meta A fs' (x + int (fst c)) (y + int (snd c)) z unpack_buf_len
                 = Some (int (length (h (sub_path A x y z c))), h (sub_path A x y z c), evs)))"
  proof (intro ballI conjI allI impI)
    fix c assume c: "c \<in> set cs"
    then obtain bs where bs: "files w (sub_path A x y z c) = Some bs" "bs \<noteq> []"
      using tiles' by blast
    then show "h (sub_path A x y z c) \<noteq> []" using ubl by (simp add: h_def)
    fix fs' :: "'p files" assume fs': "fs' mp = Some m"
    from c obtain k where k: "k < length cs" "cs ! k = c" by (auto simp: in_set_conv_nth)
    have "sub_meta A x y z c = (mp, snd (sub_meta A x y z c))"
      using meta' c by (cases "sub_meta A x y z c") auto
    then have ps: "sub_meta A x y z (cs ! k) = (mp, snd (sub_meta A x y z c))"
      by (simp only: k(2))
    from container_read [where fs' = fs' and sz = unpack_buf_len,
        OF plan_def buf_def slots dist' k(1) ps fs' [unfolded m_def]]
    show "\<exists>evs. read_from_meta A fs' (x + int (fst c)) (y + int (snd c)) z unpack_buf_len
                 = Some (int (length (h (sub_path A x y z c))), h (sub_path A x y z c), evs)"
      by (simp add: k(2) nth_data [OF k(1)] h_def)
  qed
  from unpack_tiles_writes [OF cont sep' reads] obtain wl where
    ut: "unpack_tiles A w1 x y z cs = Some wl"
    and fl: "\<forall>p. files wl p = (if p \<in> sub_path A x y z ` set cs then Some (h p) else files w1 p)"
    by blast
  define w2 where "w2 = (case sys_unlink wl mp of
                           (r, w') \<Rightarrow> if r < 0 then say w' [Unlink_failed mp] else w')"
  have pu: "process_unpack A w1 name = Some w2"
    by (simp add: process_unpack_def name l unpack_block_def ut [unfolded cs_def] Let_def w2_def
          mp_def split: prod.splits)
  have f2: "files w2 p = (if p = mp then None else files wl p)" for p
    by (auto simp: w2_def sys_unlink_def split: option.splits)
  have "\<forall>p. files w2 p = (if p = mp then None
               else if p \<in> sub_path A x y z ` set cs then Some (h p) else files w p)"
    using fl f1 by (auto simp: f2)
  then show ?thesis
    unfolding pack_unpack_def pm cs_def [symmetric] mp_def [symmetric]
    using pu by (simp add: h_def)
qed

section \<open>The sub-tiles a run goes through\<close>

lemma read_from_meta_msgs:
  assumes "read_from_meta A fs x y z sz = Some (len, buf, msgs)"
  shows "filter unpack_step msgs = []"
proof -
  obtain path slot where xm: "xyz_to_meta A x y z = (path, slot)"
    by (cases "xyz_to_meta A x y z")
  show ?thesis
  proof (cases "fs path")
    case None
    from assms show ?thesis
      unfolding read_from_meta_None [where fs = fs, OF xm None] by simp
  next
    case (Some bs)
    from assms show ?thesis
      unfolding read_from_meta_Some [where fs = fs, OF xm Some] Let_def
      by (auto simp: unpack_step_def split: if_splits)
  qed
qed

lemma unpack_tiles_steps:
  assumes "unpack_tiles A w x y z cs = Some w'"
  shows "\<exists>evs. log w' = log w @ evs \<and>
           list_all2 (\<lambda>e c. e = Failed_to_get (x + int (fst c)) (y + int (snd c)) z \<or>
                            e = Produced_tile (sub_path A x y z c))
             (filter unpack_step evs) cs"
  using assms
proof (induction cs arbitrary: w)
  case Nil
  then show ?case by simp
next
  case (Cons c cs)
  obtain ox oy where c: "c = (ox, oy)" by (cases c)
  from Cons.prems(1) obtain len buf msgs where
    rd: "read_from_meta A (files w) (x + int ox) (y + int oy) z unpack_buf_len = Some (len, buf, msgs)"
    by (auto simp: c split: option.splits)
  define w1 where "w1 = (if len \<le> 0 then say (say w msgs) [Failed_to_get (x + int ox) (y + int oy) z]
             else write_tile A (say w msgs) (x + int ox) (y + int oy) z buf (nat len))"
  define e where "e = (if len \<le> 0 then Failed_to_get (x + int ox) (y + int oy) z
             else Produced_tile (sub_path A x y z c))"
  have rest: "unpack_tiles A w1 x y z cs = Some w'"
    using Cons.prems(1) by (simp add: c rd w1_def)
  have l1: "log w1 = log w @ msgs @ [e]"
    by (simp add: w1_def e_def write_tile_eq c sub_path_def)
  have se: "unpack_step e" by (simp add: e_def unpack_step_def)
  have re: "e = Failed_to_get (x + int (fst c)) (y + int (snd c)) z \<or>
            e = Produced_tile (sub_path A x y z c)"
    by (simp add: e_def c)
  from Cons.IH [OF rest] obtain evs where
    evs: "log w' = log w1 @ evs"
    and all: "list_all2 (\<lambda>e c. e = Failed_to_get (x + int (fst c)) (y + int (snd c)) z \<or>
                            e = Produced_tile (sub_path A x y z c))
             (filter unpack_step evs) cs"
    by blast
  have "log w' = log w @ (msgs @ [e] @ evs)" by (simp add: evs l1)
  moreover have "filter unpack_step (msgs @ [e] @ evs) = e # filter unpack_step evs"
    using read_from_meta_msgs [OF rd] se by simp
  ultimately show ?case using all re by simp
qed

lemma process_unpack_steps:
  assumes "process_unpack A w name = Some w'" "path_to_xyz A name = Some (x, y, z)"
    "block_limit z = Some l"
  shows "list_all2 (\<lambda>e c. e = Failed_to_get (x + int (fst c)) (y + int (snd c)) z \<or>
                          e = Produced_tile (sub_path A x y z c))
           (filter unpack_step (drop (length (log w)) (log w'))) (block_coords l)"
proof -
  from assms obtain wl where wl: "unpack_tiles A w x y z (block_coords l) = Some wl"
    by (auto simp: process_unpack_def unpack_block_def split: option.splits)
  have "Some w' = (case sys_unlink wl (fst (xyz_to_meta A x y z)) of
               (r, w2) \<Rightarrow> Some (if r < 0 then say w2 [Unlink_failed (fst (xyz_to_meta A x y z))] else w2))"
    using assms by (simp add: process_unpack_def unpack_block_def wl Let_def)
  then have "\<exists>e. log w' = log wl @ e \<and> filter unpack_step e = []"
    by (auto simp: sys_unlink_def unpack_step_def split: option.splits)
  then obtain e where e: "log w' = log wl @ e" "filter unpack_step e = []" by blast
  from unpack_tiles_steps [OF wl] obtain evs where
    evs: "log wl = log w @ evs"
    and all: "list_all2 (\<lambda>e c. e = Failed_to_get (x + int (fst c)) (y + int (snd c)) z \<or>
                            e = Produced_tile (sub_path A x y z c))
             (filter unpack_step evs) (block_coords l)"
    by blast
  have "filter unpack_step (drop (length (log w)) (log w')) = filter unpack_step evs"
    by (simp add: e evs)
  then show ?thesis using all by simp
qed

lemma process_meta_frame:
  assumes run: "process_meta A w x y z = Some w'" and l: "block_limit z = Some l"
    and out: "p \<notin> sub_path A x y z ` set (block_coords l)" "p \<noteq> fst (xyz_to_meta A x y z)"
  shows "files w' p = files w p"
proof (cases "pack_tiles A (files w) x y z (block_coords l) (replicate header_size 0) []")
  case None
  then show ?thesis using run by (simp add: process_meta_def l pack_block_def)
next
  case (Some r)
  show ?thesis
  proof (cases r)
    case (Inl e)
    then have "w' = say w e" using run Some by (simp add: process_meta_def l pack_block_def)
    then show ?thesis by simp
  next
    case (Inr r2)
    obtain buf evs where r2: "r2 = (buf, evs)" by (cases r2)
    have pk: "pack_tiles A (files w) x y z (block_coords l) (replicate header_size 0) []
                = Some (Inr (buf, evs))"
      using Some Inr r2 by simp
    from pack_tiles_Inr [OF pk]
    have buf: "buf = apply_plan (pack_plan A (files w) x y z (block_coords l) header_size)
                       (replicate header_size 0)"
      and slots: "\<forall>p \<in> set (pack_plan A (files w) x y z (block_coords l) header_size).
                    fst p < METATILE * METATILE"
      by simp_all
    have lb: "header_size \<le> length buf"
      using apply_plan_length_drop [OF _ slots, of "replicate header_size 0"] by (simp add: buf)
    have "w' = unlink_tiles A
                  (w\<lparr>files := (files w)(fst (xyz_to_meta A x y z) \<mapsto> stamp_header buf x y z),
                     log := log w @ evs @ [Produced_meta (fst (xyz_to_meta A x y z))]\<rparr>)
                  x y z (block_coords l)"
      using process_meta_Inr [OF l pk lb] run by simp
    then show ?thesis using out by (simp add: unlink_tiles_files)
  qed
qed

lemma index_size_zeros:
  assumes "i < METATILE * METATILE"
  shows "index_size (replicate header_size 0) i = 0"
proof -
  have four: "replicate 4 (0 :: byte) = [0, 0, 0, 0]" by (simp add: eval_nat_numeral)
  have "index_at i + 4 + 4 \<le> header_size"
    using index_end_le [OF assms] by (simp add: index_end_def sizeof_entry_def)
  then have "min 4 (header_size - (index_at i + 4)) = 4" by simp
  then have "slice (replicate header_size (0 :: byte)) (index_at i + 4) 4 = [0, 0, 0, 0]"
    by (simp add: slice_def four)
  then show ?thesis by (simp add: index_size_def int_of_le32_Cons)
qed

lemma process_meta_clip:
  fixes A :: "'p addressing"
  assumes l: "block_limit z = Some l"
    and slots: "\<forall>c \<in> set (block_coords l). snd (sub_meta A x y z c) < METATILE * METATILE"
    and dist: "distinct (map (\<lambda>c. snd (sub_meta A x y z c)) (block_coords l))"
    and sep: "\<forall>c \<in> set (block_coords l). sub_path A x y z c \<noteq> fst (xyz_to_meta A x y z)"
    and tiles: "\<forall>c \<in> set (block_coords l). \<exists>bs. files w (sub_path A x y z c) = Some bs \<and> bs \<noteq> []"
    and fit: "header_size + sum_list (map (\<lambda>c. length (the (files w (sub_path A x y z c))))
                (block_coords l)) \<le> meta_buf_len"
  shows "\<exists>w' m. process_meta A w x y z = Some w' \<and>
           files w' (fst (xyz_to_meta A x y z)) = Some m \<and>
           {s. s < METATILE * METATILE \<and> index_size m s \<noteq> 0}
             = (\<lambda>c. snd (sub_meta A x y z c)) ` set (block_coords l) \<and>
           (\<forall>c \<in> set (block_coords l).
              index_size m (snd (sub_meta A x y z c))
                = int (length (the (files w (sub_path A x y z c)))) \<and>
              files w' (sub_path A x y z c) = None)"
proof -
  define cs where "cs = block_coords l"
  define mp where "mp = fst (xyz_to_meta A x y z)"
  define plan where "plan = pack_plan A (files w) x y z cs header_size"
  define buf where "buf = apply_plan plan (replicate header_size 0)"
  define m where "m = stamp_header buf x y z"
  define slot where "slot = (\<lambda>c. snd (sub_meta A x y z c))"
  note slots' = slots [folded cs_def] and dist' = dist [folded cs_def]
    and sep' = sep [folded cs_def mp_def] and tiles' = tiles [folded cs_def]
  have lp: "length plan = length cs" by (simp add: plan_def)
  have present: "\<forall>c \<in> set cs. \<exists>bs. files w (sub_path A x y z c) = Some bs"
    using tiles' by blast
  have whole: "map (\<lambda>p. snd (snd p)) plan = map (\<lambda>c. the (files w (sub_path A x y z c))) cs"
    unfolding plan_def by (rule pack_plan_whole [OF fit [folded cs_def] present])
  have slots_eq: "map fst plan = map slot cs"
    by (simp add: plan_def pack_plan_slots slot_def)
  have nth_data: "snd (snd (plan ! k)) = the (files w (sub_path A x y z (cs ! k)))"
    and nth_slot: "fst (plan ! k) = slot (cs ! k)" if "k < length cs" for k
  proof -
    have "map (\<lambda>p. snd (snd p)) plan ! k = map (\<lambda>c. the (files w (sub_path A x y z c))) cs ! k"
      by (simp only: whole)
    then show "snd (snd (plan ! k)) = the (files w (sub_path A x y z (cs ! k)))"
      using that lp by simp
    have "map fst plan ! k = map slot cs ! k"
      by (simp only: slots_eq)
    then show "fst (plan ! k) = slot (cs ! k)"
      using that lp by simp
  qed
  have good: "\<forall>p \<in> set plan. fst p < METATILE * METATILE \<and> snd (snd p) \<noteq> []"
  proof
    fix p assume "p \<in> set plan"
    then obtain k where k: "k < length cs" "plan ! k = p"
      using lp by (auto simp: in_set_conv_nth)
    have c: "cs ! k \<in> set cs" using k(1) by simp
    have "fst p < METATILE * METATILE" using nth_slot [OF k(1)] slots' c k(2) by (auto simp: slot_def)
    moreover have "snd (snd p) \<noteq> []" using nth_data [OF k(1)] tiles' c k(2) by fastforce
    ultimately show "fst p < METATILE * METATILE \<and> snd (snd p) \<noteq> []" by simp
  qed
  then have pslots: "\<forall>p \<in> set plan. fst p < METATILE * METATILE" by simp
  from process_meta_success [OF l good [unfolded plan_def cs_def]]
  obtain w1 where pm: "process_meta A w x y z = Some w1"
    and f1: "\<forall>p. files w1 p = (if p \<in> sub_path A x y z ` set cs then None
                                else ((files w)(mp \<mapsto> m)) p)"
    unfolding m_def buf_def plan_def cs_def mp_def by blast
  have mp_out: "mp \<notin> sub_path A x y z ` set cs" using sep' by auto
  then have cont: "files w1 mp = Some m" using f1 by simp
  have h0: "header_size \<le> length (replicate header_size (0 :: byte))" by simp
  have lb: "header_size \<le> length buf"
    using apply_plan_length_drop [OF h0 pslots] by (simp add: buf_def)
  then have sm: "sizeof_meta_layout \<le> length buf" by (simp add: header_size_def)
  note pe = packed_entries(4) [OF plan_def buf_def pslots dist', where x' = x and y' = y
      and z' = z, folded m_def]
  have size: "index_size m (slot c) = int (length (the (files w (sub_path A x y z c))))"
    if "c \<in> set cs" for c
  proof -
    from that obtain k where k: "k < length cs" "cs ! k = c" by (auto simp: in_set_conv_nth)
    from pe [OF k(1)] show ?thesis
      by (simp add: k(2) nth_data [OF k(1), unfolded k(2)] slot_def)
  qed
  have nz: "index_size m (slot c) \<noteq> 0" if "c \<in> set cs" for c
  proof -
    from tiles' that obtain bs where "files w (sub_path A x y z c) = Some bs" "bs \<noteq> []" by blast
    then show ?thesis using size [OF that] by simp
  qed
  have zero: "index_size m s = 0" if "s < METATILE * METATILE" "s \<notin> slot ` set cs" for s
  proof -
    have "set (map fst plan) = set (map slot cs)" by (simp only: slots_eq)
    then have "fst ` set plan = slot ` set cs" by simp
    then have "s \<notin> fst ` set plan" using that(2) by simp
    from apply_plan_index_other [OF h0 pslots this that(1)]
    have "index_size buf s = 0" by (simp add: buf_def index_size_zeros [OF that(1)])
    then show ?thesis by (simp add: m_def index_stamp_header(2) [OF sm])
  qed
  have set_eq: "{s. s < METATILE * METATILE \<and> index_size m s \<noteq> 0} = slot ` set cs"
  proof (rule set_eqI, rule iffI)
    fix s assume "s \<in> {s. s < METATILE * METATILE \<and> index_size m s \<noteq> 0}"
    then have s: "s < METATILE * METATILE" "index_size m s \<noteq> 0" by simp_all
    show "s \<in> slot ` set cs"
    proof (rule ccontr)
      assume "s \<notin> slot ` set cs"
      from zero [OF s(1) this] s(2) show False by simp
    qed
  next
    fix s assume "s \<in> slot ` set cs"
    then obtain c where c: "c \<in> set cs" "s = slot c" by blast
    have "s < METATILE * METATILE" using slots' c by (simp add: slot_def)
    moreover have "index_size m s \<noteq> 0" using nz [OF c(1)] c(2) by simp
    ultimately show "s \<in> {s. s < METATILE * METATILE \<and> index_size m s \<noteq> 0}" by simp
  qed
  have gone: "files w1 (sub_path A x y z c) = None" if "c \<in> set cs" for c
    using f1 that by simp
  have all: "\<forall>c \<in> set cs. index_size m (slot c) = int (length (the (files w (sub_path A x y z c))))
               \<and> files w1 (sub_path A x y z c) = None"
    using size gone by simp
  have "process_meta A w x y z = Some w1 \<and> files w1 mp = Some m \<and>
        {s. s < METATILE * METATILE \<and> index_size m s \<noteq> 0} = slot ` set cs \<and>
        (\<forall>c \<in> set cs. index_size m (slot c) = int (length (the (files w (sub_path A x y z c))))
               \<and> files w1 (sub_path A x y z c) = None)"
    using pm cont set_eq all by simp
  then show ?thesis
    unfolding cs_def mp_def slot_def by (intro exI)
qed

section \<open>The claims\<close>

text \<open>
  C1, as stated, fails. \<^verbatim>\<open>process_unpack\<close> reads each tile into a buffer of 1 MiB and
  \<^verbatim>\<open>read_from_meta\<close> clamps the recorded size to that capacity: a single non-empty tile
  of 1 MiB + 1 bytes at zoom 0 is packed whole by \<^verbatim>\<open>process_meta\<close> and comes back from
  \<^verbatim>\<open>process_unpack\<close> one byte short.
\<close>

theorem big_tile_comes_back_truncated:
  "files big_world (Tile_file 0 0 0) = Some (replicate 1048577 0) \<and>
   file_after (pack_unpack sample_addressing big_world 0 0 0 (Tile_file 0 0 0)) (Tile_file 0 0 0)
     = Some (replicate 1048576 0)"
proof -
  have fb: "files big_world = no_files(Tile_file 0 0 0 \<mapsto> replicate 1048577 0)"
    by (simp add: big_world_def)
  have name: "path_to_xyz sample_addressing (Tile_file 0 0 0) = Some (0, 0, 0)" by simp
  have meta: "\<forall>c \<in> set (block_coords 1).
                 fst (sub_meta sample_addressing 0 0 0 c) = fst (xyz_to_meta sample_addressing 0 0 0) \<and>
                 snd (sub_meta sample_addressing 0 0 0 c) < METATILE * METATILE"
    by (simp add: block_coords_1 sub_meta_def METATILE_def)
  have dist: "distinct (map (\<lambda>c. snd (sub_meta sample_addressing 0 0 0 c)) (block_coords 1))"
    by (simp add: block_coords_1)
  have sep: "\<forall>c \<in> set (block_coords 1).
               sub_path sample_addressing 0 0 0 c \<noteq> fst (xyz_to_meta sample_addressing 0 0 0)"
    by (simp add: block_coords_1 sub_path_def)
  have tiles: "\<forall>c \<in> set (block_coords 1).
                 \<exists>bs. files big_world (sub_path sample_addressing 0 0 0 c) = Some bs \<and> bs \<noteq> []"
    by (simp add: block_coords_1 sub_path_def fb)
  have fit: "header_size + sum_list (map (\<lambda>c. length (the (files big_world
                (sub_path sample_addressing 0 0 0 c)))) (block_coords 1)) \<le> meta_buf_len"
    by (simp add: block_coords_1 sub_path_def fb header_size_532 meta_buf_len_def)
  from roundtrip_general [OF block_limit_0 name meta dist sep tiles fit]
  obtain w2 where run: "pack_unpack sample_addressing big_world 0 0 0 (Tile_file 0 0 0) = Some w2"
    and f2: "\<forall>p. files w2 p =
              (if p = fst (xyz_to_meta sample_addressing 0 0 0) then None
               else if p \<in> sub_path sample_addressing 0 0 0 ` set (block_coords 1)
                 then Some (take unpack_buf_len (the (files big_world p)))
               else files big_world p)"
    by blast
  have "files w2 (Tile_file 0 0 0) = Some (replicate 1048576 0)"
    by (simp add: f2 block_coords_1 sub_path_def fb unpack_buf_len_def)
  then show ?thesis by (simp add: run file_after_def fb)
qed

text \<open>
  C1, amended. When every sub-tile of the block is a non-empty standalone file of at most
  \<open>unpack_buf_len\<close> bytes and the header with all the tiles fits \<open>meta_buf_len\<close>,
  \<^verbatim>\<open>process_meta\<close> followed by \<^verbatim>\<open>process_unpack\<close> ends with every file as it was before
  and no file at the container's path. (The addressing puts the sub-tiles of the block
  in one container, at distinct slots of the index table, and their paths differ from
  the container's.)
\<close>

theorem pack_unpack_roundtrip:
  assumes l: "block_limit z = Some l"
    and name: "path_to_xyz A name = Some (x, y, z)"
    and meta: "\<forall>c \<in> set (block_coords l).
                 fst (sub_meta A x y z c) = fst (xyz_to_meta A x y z) \<and>
                 snd (sub_meta A x y z c) < METATILE * METATILE"
    and dist: "distinct (map (\<lambda>c. snd (sub_meta A x y z c)) (block_coords l))"
    and sep: "\<forall>c \<in> set (block_coords l). sub_path A x y z c \<noteq> fst (xyz_to_meta A x y z)"
    and tiles: "\<forall>c \<in> set (block_coords l). \<exists>bs. files w (sub_path A x y z c) = Some bs \<and> bs \<noteq> []"
    and small: "\<forall>c \<in> set (block_coords l).
                  length (the (files w (sub_path A x y z c))) \<le> unpack_buf_len"
    and fit: "header_size + sum_list (map (\<lambda>c. length (the (files w (sub_path A x y z c))))
                (block_coords l)) \<le> meta_buf_len"
  shows "\<exists>w2. pack_unpack A w x y z name = Some w2 \<and>
           files w2 = (files w)(fst (xyz_to_meta A x y z) := None)"
proof -
  from roundtrip_general [OF l name meta dist sep tiles fit]
  obtain w2 where run: "pack_unpack A w x y z name = Some w2"
    and f2: "\<forall>p. files w2 p =
              (if p = fst (xyz_to_meta A x y z) then None
               else if p \<in> sub_path A x y z ` set (block_coords l)
                 then Some (take unpack_buf_len (the (files w p)))
               else files w p)"
    by blast
  have "files w2 p = ((files w)(fst (xyz_to_meta A x y z) := None)) p" for p
  proof (cases "p \<in> sub_path A x y z ` set (block_coords l)")
    case True
    then obtain c where c: "c \<in> set (block_coords l)" "p = sub_path A x y z c" by blast
    from tiles c obtain bs where bs: "files w p = Some bs" by blast
    have "length bs \<le> unpack_buf_len" using small c bs by fastforce
    then show ?thesis using True bs by (simp add: f2)
  next
    case False
    then show ?thesis by (simp add: f2)
  qed
  then have "files w2 = (files w)(fst (xyz_to_meta A x y z) := None)" by (rule ext)
  with run show ?thesis by blast
qed

theorem pack_unpack_roundtrip_witness:
  "block_limit 1 = Some 2 \<and>
   path_to_xyz sample_addressing (Meta_file 0 0 1) = Some (0, 0, 1) \<and>
   files four_tiles (Tile_file 1 1 1) = Some [4, 5] \<and>
   (\<exists>w2. pack_unpack sample_addressing four_tiles 0 0 1 (Meta_file 0 0 1) = Some w2 \<and>
      files w2 = (files four_tiles)(Meta_file 0 0 1 := None) \<and>
      files w2 (Tile_file 1 1 1) = Some [4, 5] \<and> files w2 (Meta_file 0 0 1) = None)"
proof -
  have ff: "files four_tiles = no_files(Tile_file 0 0 1 \<mapsto> [1], Tile_file 0 1 1 \<mapsto> [2],
                       Tile_file 1 0 1 \<mapsto> [3], Tile_file 1 1 1 \<mapsto> [4, 5])"
    by (simp add: four_tiles_def)
  have mp: "fst (xyz_to_meta sample_addressing 0 0 1) = Meta_file 0 0 1"
    by (simp add: sample_addressing_def)
  have name: "path_to_xyz sample_addressing (Meta_file 0 0 1) = Some (0, 0, 1)" by simp
  have meta: "\<forall>c \<in> set (block_coords 2).
                 fst (sub_meta sample_addressing 0 0 1 c) = fst (xyz_to_meta sample_addressing 0 0 1) \<and>
                 snd (sub_meta sample_addressing 0 0 1 c) < METATILE * METATILE"
    by (simp add: block_coords_2 sub_meta_def sample_addressing_def METATILE_def)
  have dist: "distinct (map (\<lambda>c. snd (sub_meta sample_addressing 0 0 1 c)) (block_coords 2))"
    by (simp add: block_coords_2 sub_meta_def sample_addressing_def)
  have sep: "\<forall>c \<in> set (block_coords 2).
               sub_path sample_addressing 0 0 1 c \<noteq> fst (xyz_to_meta sample_addressing 0 0 1)"
    by (simp add: block_coords_2 sub_path_def mp)
  have tiles: "\<forall>c \<in> set (block_coords 2).
                 \<exists>bs. files four_tiles (sub_path sample_addressing 0 0 1 c) = Some bs \<and> bs \<noteq> []"
    by (simp add: block_coords_2 sub_path_def ff)
  have small: "\<forall>c \<in> set (block_coords 2).
                 length (the (files four_tiles (sub_path sample_addressing 0 0 1 c))) \<le> unpack_buf_len"
    by (simp add: block_coords_2 sub_path_def ff unpack_buf_len_def)
  have fit: "header_size + sum_list (map (\<lambda>c. length (the (files four_tiles
                (sub_path sample_addressing 0 0 1 c)))) (block_coords 2)) \<le> meta_buf_len"
    by (simp add: block_coords_2 sub_path_def ff header_size_532 meta_buf_len_def)
  from pack_unpack_roundtrip [OF block_limit_1 name meta dist sep tiles small fit]
  obtain w2 where run: "pack_unpack sample_addressing four_tiles 0 0 1 (Meta_file 0 0 1) = Some w2"
    and f2: "files w2 = (files four_tiles)(Meta_file 0 0 1 := None)"
    unfolding mp by blast
  have "files w2 (Tile_file 1 1 1) = Some [4, 5]" "files w2 (Meta_file 0 0 1) = None"
    "files four_tiles (Tile_file 1 1 1) = Some [4, 5]"
    by (simp_all add: f2 ff)
  with run f2 show ?thesis
    using block_limit_1 name by blast
qed



text \<open>
  C3. \<^verbatim>\<open>tile_read\<close> returns what \<^verbatim>\<open>read_from_meta\<close> returned when that is not negative;
  on every negative return it returns the result of \<^verbatim>\<open>read_from_file\<close> instead (with
  the diagnostics of both). In particular a container file that holds the header fields
  but has the wrong magic or a count other than \<open>METATILE * METATILE\<close> is not used: the
  tile is looked up as a standalone file, after a diagnostic.
\<close>

theorem tile_read_fallback:
  "(\<forall>r buf evs. read_from_meta A fs x y z (size_t_of_int sz) = Some (r, buf, evs) \<longrightarrow> 0 \<le> r \<longrightarrow>
      tile_read A fs x y z sz = Some (r, buf, evs)) \<and>
   (\<forall>r buf evs. read_from_meta A fs x y z (size_t_of_int sz) = Some (r, buf, evs) \<longrightarrow> r < 0 \<longrightarrow>
      tile_read A fs x y z sz =
        (case read_from_file A fs x y z (size_t_of_int sz) of
           (r', buf', evs') \<Rightarrow> Some (r', buf', evs @ evs'))) \<and>
   (\<forall>bs. fs (fst (xyz_to_meta A x y z)) = Some bs \<longrightarrow> sizeof_meta_layout \<le> length bs \<longrightarrow>
      take (length META_MAGIC) bs \<noteq> META_MAGIC \<or> m_count bs \<noteq> int (METATILE * METATILE) \<longrightarrow>
      (\<exists>evs. evs \<noteq> [] \<and> tile_read A fs x y z sz =
        (case read_from_file A fs x y z (size_t_of_int sz) of
           (r', buf', evs') \<Rightarrow> Some (r', buf', evs @ evs'))))"
proof (intro conjI allI impI)
  fix bs
  assume bs: "fs (fst (xyz_to_meta A x y z)) = Some bs" and len: "sizeof_meta_layout \<le> length bs"
    and bad: "take (length META_MAGIC) bs \<noteq> META_MAGIC \<or> m_count bs \<noteq> int (METATILE * METATILE)"
  obtain path slot where ps: "xyz_to_meta A x y z = (path, slot)" by (cases "xyz_to_meta A x y z")
  have hdr: "take (length META_MAGIC) (take sizeof_header bs) = take (length META_MAGIC) bs"
    "m_count (take sizeof_header bs) = m_count bs"
    by (simp_all add: META_MAGIC_def sizeof_header_def m_count_take)
  have "\<not> length (take sizeof_header bs) < sizeof_meta_layout"
    using len by (simp add: sizeof_header_def sizeof_meta_layout_def)
  with bad hdr bs ps show "\<exists>evs. evs \<noteq> [] \<and> tile_read A fs x y z sz =
        (case read_from_file A fs x y z (size_t_of_int sz) of
           (r', buf', evs') \<Rightarrow> Some (r', buf', evs @ evs'))"
    by (auto simp: tile_read_def read_from_meta_Some [OF ps] Let_def split: prod.splits)
qed (simp_all add: tile_read_def split: prod.splits)

theorem tile_read_fallback_witness:
  "read_from_meta sample_addressing
     (no_files(Meta_file 0 0 0 \<mapsto> short_bad_magic, Tile_file 0 0 0 \<mapsto> [1, 2, 3])) 0 0 0
     (size_t_of_int 16) = Some (- 4, [], [Magic_mismatch (Meta_file 0 0 0)]) \<and>
   tile_read sample_addressing
     (no_files(Meta_file 0 0 0 \<mapsto> short_bad_magic, Tile_file 0 0 0 \<mapsto> [1, 2, 3])) 0 0 0 16
     = Some (3, [1, 2, 3], [Magic_mismatch (Meta_file 0 0 0)]) \<and>
   read_from_meta sample_addressing
     (no_files(Meta_file 0 0 0 \<mapsto> tiny_container, Tile_file 0 0 0 \<mapsto> [1, 2, 3])) 0 0 0
     (size_t_of_int 16) = Some (3, [7, 8, 9], []) \<and>
   tile_read sample_addressing
     (no_files(Meta_file 0 0 0 \<mapsto> tiny_container, Tile_file 0 0 0 \<mapsto> [1, 2, 3])) 0 0 0 16
     = Some (3, [7, 8, 9], [])"
proof -
  let ?bad = "no_files(Meta_file 0 0 0 \<mapsto> short_bad_magic, Tile_file 0 0 0 \<mapsto> [1, 2, 3])"
  let ?good = "no_files(Meta_file 0 0 0 \<mapsto> tiny_container, Tile_file 0 0 0 \<mapsto> [1, 2, 3])"
  have sz: "size_t_of_int 16 = 16" by (simp add: size_t_of_int_def)
  have m1: "read_from_meta sample_addressing ?bad 0 0 0 (size_t_of_int 16)
              = Some (- 4, [], [Magic_mismatch (Meta_file 0 0 0)])"
    by (rule short_bad_magic_read) simp
  have f1: "read_from_file sample_addressing ?bad 0 0 0 (size_t_of_int 16) = (3, [1, 2, 3], [])"
    by (simp add: read_from_file_eq sz)
  have m2: "read_from_meta sample_addressing ?good 0 0 0 (size_t_of_int 16) = Some (3, [7, 8, 9], [])"
    unfolding sz by (rule tiny_container_read) simp
  have t1: "tile_read sample_addressing ?bad 0 0 0 16
              = Some (3, [1, 2, 3], [Magic_mismatch (Meta_file 0 0 0)])"
    using tile_read_fallback [of sample_addressing ?bad 0 0 0 16] m1 f1 by simp
  have t2: "tile_read sample_addressing ?good 0 0 0 16 = Some (3, [7, 8, 9], [])"
    using tile_read_fallback [of sample_addressing ?good 0 0 0 16] m2 by simp
  from m1 t1 m2 t2 show ?thesis by (intro conjI)
qed

text \<open>
  C4. Whatever \<^verbatim>\<open>read_from_meta\<close> returns for a buffer of capacity \<open>sz\<close>, the count is at
  most \<open>sz\<close> and at most \<open>sz\<close> bytes were stored in the buffer (a count that is not
  negative is the number of bytes stored). When the entry of the slot records a size
  above \<open>sz\<close> in a container with a valid header and an offset the seek accepts, the
  truncation is reported and exactly the first \<open>sz\<close> bytes at the recorded offset (fewer at
  the end of the file) are read.
\<close>

theorem read_from_meta_clamped:
  "(\<forall>r buf evs. read_from_meta A fs x y z sz = Some (r, buf, evs) \<longrightarrow>
      r \<le> int sz \<and> length buf \<le> sz \<and> (0 \<le> r \<longrightarrow> r = int (length buf))) \<and>
   (\<forall>path slot bs. xyz_to_meta A x y z = (path, slot) \<longrightarrow> fs path = Some bs \<longrightarrow>
      take 4 bs = META_MAGIC \<longrightarrow> m_count bs = int (METATILE * METATILE) \<longrightarrow>
      index_end slot \<le> length bs \<longrightarrow> index_end slot \<le> sizeof_header \<longrightarrow>
      0 \<le> index_offset bs slot \<longrightarrow> sz < size_t_of_int (index_size bs slot) \<longrightarrow>
      read_from_meta A fs x y z sz =
        Some (int (length (take sz (drop (nat (index_offset bs slot)) bs))),
              take sz (drop (nat (index_offset bs slot)) bs),
              [Truncating (size_t_of_int (index_size bs slot)) sz]))"
proof (rule conjI)
  show "\<forall>r buf evs. read_from_meta A fs x y z sz = Some (r, buf, evs) \<longrightarrow>
      r \<le> int sz \<and> length buf \<le> sz \<and> (0 \<le> r \<longrightarrow> r = int (length buf))"
    using read_from_meta_bounds [of A fs x y z sz] by blast
next
  show "\<forall>path slot bs. xyz_to_meta A x y z = (path, slot) \<longrightarrow> fs path = Some bs \<longrightarrow>
      take 4 bs = META_MAGIC \<longrightarrow> m_count bs = int (METATILE * METATILE) \<longrightarrow>
      index_end slot \<le> length bs \<longrightarrow> index_end slot \<le> sizeof_header \<longrightarrow>
      0 \<le> index_offset bs slot \<longrightarrow> sz < size_t_of_int (index_size bs slot) \<longrightarrow>
      read_from_meta A fs x y z sz =
        Some (int (length (take sz (drop (nat (index_offset bs slot)) bs))),
              take sz (drop (nat (index_offset bs slot)) bs),
              [Truncating (size_t_of_int (index_size bs slot)) sz])"
  proof (intro allI impI)
    fix path slot bs
    assume ps: "xyz_to_meta A x y z = (path, slot)" and bs: "fs path = Some bs"
      and magic: "take 4 bs = META_MAGIC" and count: "m_count bs = int (METATILE * METATILE)"
      and len: "index_end slot \<le> length bs" and slot: "index_end slot \<le> sizeof_header"
      and off: "0 \<le> index_offset bs slot" and big: "sz < size_t_of_int (index_size bs slot)"
    have m: "min (size_t_of_int (index_size bs slot)) sz = sz" using big by simp
    show "read_from_meta A fs x y z sz =
          Some (int (length (take sz (drop (nat (index_offset bs slot)) bs))),
                take sz (drop (nat (index_offset bs slot)) bs),
                [Truncating (size_t_of_int (index_size bs slot)) sz])"
      unfolding read_from_meta_valid [where fs = fs, OF ps bs magic count len slot] m
      using off big by simp
  qed
qed

theorem read_from_meta_clamped_witness:
  "read_from_meta sample_addressing (no_files(Meta_file 0 0 0 \<mapsto> tiny_container)) 0 0 0 2
     = Some (2, [7, 8], [Truncating 3 2]) \<and>
   (2::int) \<le> int 2 \<and> length [7 :: byte, 8] \<le> 2 \<and>
   index_offset tiny_container 0 = 532 \<and> size_t_of_int (index_size tiny_container 0) = 3 \<and>
   take 2 (drop (nat (index_offset tiny_container 0)) tiny_container) = [7, 8]"
proof -
  let ?fs = "no_files(Meta_file 0 0 0 \<mapsto> tiny_container)"
  have r: "read_from_meta sample_addressing ?fs 0 0 0 2 = Some (2, [7, 8], [Truncating 3 2])"
    by (rule tiny_container_read_2) simp
  note io = tiny_container_fields
  have clamp: "read_from_meta sample_addressing ?fs 0 0 0 2 =
        Some (int (length (take 2 (drop (nat (index_offset tiny_container 0)) tiny_container))),
              take 2 (drop (nat (index_offset tiny_container 0)) tiny_container),
              [Truncating (size_t_of_int (index_size tiny_container 0)) 2])"
    using read_from_meta_clamped [of sample_addressing ?fs 0 0 0 2]
    by (simp add: io METATILE_def index_end_def index_at_def sizeof_meta_layout_def
          sizeof_entry_def sizeof_header_def size_t_of_int_def)
  show ?thesis
    using r clamp by (simp add: io size_t_of_int_def)
qed

text \<open>
  C5. The claim does not hold of the code: \<^verbatim>\<open>read_from_meta\<close> compares the number of
  bytes read with \<^verbatim>\<open>sizeof(struct meta_layout)\<close>, the header fields without the index
  table. A container of exactly that many bytes passes the test, its magic and count are
  validated, and the entry of the slot is then taken from bytes of \<^verbatim>\<open>header\<close> that were
  never read (\<open>None\<close>); with a spoilt magic the same short file is answered with the magic
  error, not with the error for a short header.
\<close>

theorem short_container_not_rejected:
  "length short_container = sizeof_meta_layout \<and>
   length short_container < header_size \<and>
   read_from_meta sample_addressing (no_files(Meta_file 0 0 0 \<mapsto> short_container)) 0 0 0
     unpack_buf_len = None \<and>
   length short_bad_magic < header_size \<and>
   read_from_meta sample_addressing (no_files(Meta_file 0 0 0 \<mapsto> short_bad_magic)) 0 0 0
     unpack_buf_len = Some (- 4, [], [Magic_mismatch (Meta_file 0 0 0)])"
proof -
  have hs: "header_size = 532"
    by (simp add: header_size_def sizeof_meta_layout_def sizeof_entry_def METATILE_def)
  have lb: "length short_bad_magic = 20"
    by (simp add: short_bad_magic_def short_container_def META_MAGIC_def)
  have "read_from_meta sample_addressing (no_files(Meta_file 0 0 0 \<mapsto> short_bad_magic)) 0 0 0
     unpack_buf_len = Some (- 4, [], [Magic_mismatch (Meta_file 0 0 0)])"
    by (rule short_bad_magic_read) simp
  then show ?thesis
    by (simp add: short_container_fields short_container_read hs lb sizeof_meta_layout_def)
qed

text \<open>
  C6, as stated, fails. \<^verbatim>\<open>lseek\<close> accepts an offset beyond the end of the file, so a
  recorded offset greater than the length of the container is no seek error: the read
  that follows meets the end of the file at once and \<^verbatim>\<open>read_from_meta\<close> returns 0.
\<close>

theorem offset_beyond_end_no_seek_error:
  "int (length far_container) < index_offset far_container 0 \<and>
   read_from_meta sample_addressing (no_files(Meta_file 0 0 0 \<mapsto> far_container)) 0 0 0 16
     = Some (0, [], [])"
proof -
  have "read_from_meta sample_addressing (no_files(Meta_file 0 0 0 \<mapsto> far_container)) 0 0 0 16
     = Some (0, [], [])"
    by (rule far_container_read) simp
  then show ?thesis by (simp add: far_container_fields)
qed

text \<open>
  C6, amended. For a container with a valid header that holds the entry of the slot,
  \<^verbatim>\<open>read_from_meta\<close> returns the seek error -6 when the recorded offset is negative, the
  only offset \<^verbatim>\<open>lseek\<close> refuses; for every other offset it returns the number of bytes
  it read, and that is 0 when the offset is at or beyond the end of the file.
\<close>

theorem seek_error_on_negative_offset:
  assumes "xyz_to_meta A x y z = (path, slot)" and "fs path = Some bs"
    and "take 4 bs = META_MAGIC" and "m_count bs = int (METATILE * METATILE)"
    and "index_end slot \<le> length bs" and "index_end slot \<le> sizeof_header"
  shows "(index_offset bs slot < 0 \<longrightarrow>
            read_from_meta A fs x y z sz = Some (- 6, [], [Seek_error path])) \<and>
         (0 \<le> index_offset bs slot \<longrightarrow>
            (\<exists>buf evs. read_from_meta A fs x y z sz = Some (int (length buf), buf, evs))) \<and>
         (int (length bs) \<le> index_offset bs slot \<longrightarrow>
            (\<exists>evs. read_from_meta A fs x y z sz = Some (0, [], evs)))"
proof (intro conjI impI)
  assume "index_offset bs slot < 0"
  then show "read_from_meta A fs x y z sz = Some (- 6, [], [Seek_error path])"
    unfolding read_from_meta_valid [where fs = fs, OF assms] by simp
next
  assume "0 \<le> index_offset bs slot"
  then show "\<exists>buf evs. read_from_meta A fs x y z sz = Some (int (length buf), buf, evs)"
    unfolding read_from_meta_valid [where fs = fs, OF assms] by simp
next
  assume far: "int (length bs) \<le> index_offset bs slot"
  then have "drop (nat (index_offset bs slot)) bs = []" by simp
  moreover have "\<not> index_offset bs slot < 0" using far by simp
  ultimately show "\<exists>evs. read_from_meta A fs x y z sz = Some (0, [], evs)"
    unfolding read_from_meta_valid [where fs = fs, OF assms] by simp
qed

theorem seek_error_on_negative_offset_witness:
  "index_offset neg_container 0 < 0 \<and>
   read_from_meta sample_addressing (no_files(Meta_file 0 0 0 \<mapsto> neg_container)) 0 0 0 16
     = Some (- 6, [], [Seek_error (Meta_file 0 0 0)]) \<and>
   0 \<le> index_offset far_container 0 \<and>
   int (length far_container) \<le> index_offset far_container 0 \<and>
   (\<exists>evs. read_from_meta sample_addressing (no_files(Meta_file 0 0 0 \<mapsto> far_container)) 0 0 0 16
     = Some (0, [], evs))"
proof -
  have n: "read_from_meta sample_addressing (no_files(Meta_file 0 0 0 \<mapsto> neg_container)) 0 0 0 16
     = Some (- 6, [], [Seek_error (Meta_file 0 0 0)])"
    using seek_error_on_negative_offset [where A = sample_addressing and x = 0 and y = 0 and z = 0
        and path = "Meta_file 0 0 0" and slot = 0 and bs = neg_container and sz = 16
        and fs = "no_files(Meta_file 0 0 0 \<mapsto> neg_container)"]
    by (simp add: neg_container_fields sample_slot_0_in_header METATILE_def)
  have f: "\<exists>evs. read_from_meta sample_addressing (no_files(Meta_file 0 0 0 \<mapsto> far_container)) 0 0 0 16
     = Some (0, [], evs)"
    using seek_error_on_negative_offset [where A = sample_addressing and x = 0 and y = 0 and z = 0
        and path = "Meta_file 0 0 0" and slot = 0 and bs = far_container and sz = 16
        and fs = "no_files(Meta_file 0 0 0 \<mapsto> far_container)"]
    by (simp add: far_container_fields sample_slot_0_in_header METATILE_def)
  show ?thesis
    using n f by (simp add: neg_container_fields far_container_fields)
qed

text \<open>
  C7. A run of \<^verbatim>\<open>process_meta\<close> that reports "Produced .meta" has written a container
  with the magic marker, the count \<open>METATILE * METATILE\<close> and the block's x, y, z in its
  header. Going through the sub-tiles in the order of the loops (x outer, y inner), the
  entry of the first records the offset \<open>header_size\<close>, the entry of each next one
  records the offset plus the size of the one before it, every size is positive, and the
  last offset plus size is the length of the file: offsets are absolute positions and the
  payload is contiguous. (The slots of the sub-tiles are distinct, their paths differ
  from the container's, and x, y fit an \<^verbatim>\<open>int\<close>.)
\<close>

theorem written_container_layout:
  assumes l: "block_limit z = Some l"
    and dist: "distinct (map (\<lambda>c. snd (sub_meta A x y z c)) (block_coords l))"
    and sep: "\<forall>c \<in> set (block_coords l). sub_path A x y z c \<noteq> fst (xyz_to_meta A x y z)"
    and xr: "- (2 ^ 31) \<le> x" "x < 2 ^ 31" and yr: "- (2 ^ 31) \<le> y" "y < 2 ^ 31"
    and run: "process_meta A w x y z = Some w'"
    and ok: "Produced_meta (fst (xyz_to_meta A x y z)) \<in> set (drop (length (log w)) (log w'))"
  shows "\<exists>m. files w' (fst (xyz_to_meta A x y z)) = Some m \<and>
           take (length META_MAGIC) m = META_MAGIC \<and> m_count m = int (METATILE * METATILE) \<and>
           m_x m = x \<and> m_y m = y \<and> m_z m = z \<and>
           index_offset m (snd (sub_meta A x y z (block_coords l ! 0))) = int header_size \<and>
           (\<forall>k. Suc k < length (block_coords l) \<longrightarrow>
              index_offset m (snd (sub_meta A x y z (block_coords l ! Suc k)))
                = index_offset m (snd (sub_meta A x y z (block_coords l ! k)))
                  + index_size m (snd (sub_meta A x y z (block_coords l ! k)))) \<and>
           (\<forall>k < length (block_coords l).
              0 < index_size m (snd (sub_meta A x y z (block_coords l ! k)))) \<and>
           index_offset m (snd (sub_meta A x y z (last (block_coords l))))
             + index_size m (snd (sub_meta A x y z (last (block_coords l)))) = int (length m)"
proof -
  define cs where "cs = block_coords l"
  define mp where "mp = fst (xyz_to_meta A x y z)"
  define plan where "plan = pack_plan A (files w) x y z cs header_size"
  define slot where "slot = (\<lambda>c. snd (sub_meta A x y z c))"
  from process_meta_cases [OF run l ok] obtain buf evs where
    pk: "pack_tiles A (files w) x y z cs (replicate header_size 0) [] = Some (Inr (buf, evs))"
    unfolding cs_def by blast
  from pack_tiles_Inr [OF pk] have buf: "buf = apply_plan plan (replicate header_size 0)"
    and good: "\<forall>p \<in> set plan. fst p < METATILE * METATILE \<and> snd (snd p) \<noteq> []"
    by (simp_all add: plan_def)
  then have slots: "\<forall>p \<in> set plan. fst p < METATILE * METATILE" by simp
  have lb: "header_size \<le> length buf"
    using apply_plan_length_drop [OF _ slots, of "replicate header_size 0"] by (simp add: buf)
  then have sm: "sizeof_meta_layout \<le> length buf" by (simp add: header_size_def)
  define m where "m = stamp_header buf x y z"
  have w': "w' = unlink_tiles A
                  (w\<lparr>files := (files w)(mp \<mapsto> m), log := log w @ evs @ [Produced_meta mp]\<rparr>)
                  x y z cs"
    using process_meta_Inr [OF l pk [unfolded cs_def] lb] run by (simp add: mp_def m_def cs_def)
  have "mp \<notin> sub_path A x y z ` set cs" using sep by (auto simp: mp_def cs_def)
  then have fl: "files w' mp = Some m" by (simp add: w' unlink_tiles_files)
  have zr: "- (2 ^ 31) \<le> z" "z < 2 ^ 31"
    using l by (auto simp: block_limit_def shift_left_1_def split: if_splits)
  note hf = stamp_header_fields [OF sm, where x = x and y = y and z = z, folded m_def]
  have fields: "take (length META_MAGIC) m = META_MAGIC" "m_count m = int (METATILE * METATILE)"
    "m_x m = x" "m_y m = y" "m_z m = z"
    using hf xr yr zr by simp_all
  have ne: "cs \<noteq> []" unfolding cs_def using block_limit_range [OF l] block_coords_nonempty by blast
  have lp: "length plan = length cs" by (simp add: plan_def)
  have ch: "chained header_size plan" by (simp add: plan_def pack_plan_chained)
  note pe = packed_entries(3,4) [OF plan_def buf slots dist [folded cs_def], where x' = x and y' = y
      and z' = z, folded m_def]
  have off: "index_offset m (slot (cs ! k)) = int (fst (snd (plan ! k)))"
    and size: "index_size m (slot (cs ! k)) = int (length (snd (snd (plan ! k))))"
    if "k < length cs" for k
    using pe [OF that] by (simp_all add: slot_def)
  have first: "index_offset m (slot (cs ! 0)) = int header_size"
    using off [of 0] ne chained_nth(1) [OF ch] lp by (cases plan) auto
  have nxt: "index_offset m (slot (cs ! Suc k)) = index_offset m (slot (cs ! k)) + index_size m (slot (cs ! k))"
    if "Suc k < length cs" for k
    using off [of "Suc k"] off [of k] size [of k] chained_nth(2) [OF ch, of k] that lp by simp
  have pos: "0 < index_size m (slot (cs ! k))" if "k < length cs" for k
  proof -
    have "plan ! k \<in> set plan" using that lp by simp
    then have "snd (snd (plan ! k)) \<noteq> []" using good by blast
    then show ?thesis using size [OF that] by simp
  qed
  have pne: "plan \<noteq> []" using ne lp by auto
  have lastk: "last cs = cs ! (length cs - 1)" "last plan = plan ! (length cs - 1)"
    using ne pne lp by (simp_all add: last_conv_nth)
  have kl: "length cs - 1 < length cs" using ne by (cases cs) simp_all
  have total: "length buf = header_size + sum_list (map (\<lambda>p. length (snd (snd p))) plan)"
    using apply_plan_length_drop [OF _ slots, of "replicate header_size 0"] by (simp add: buf)
  have lm: "length m = length buf" by (simp add: m_def length_stamp_header [OF sm])
  have fin: "index_offset m (slot (last cs)) + index_size m (slot (last cs)) = int (length m)"
    using off [OF kl] size [OF kl] chained_nth(3) [OF ch pne] lastk total lm by simp
  show ?thesis
    unfolding cs_def [symmetric] mp_def [symmetric]
    using fl fields first nxt pos fin by (simp add: slot_def)
qed

theorem written_container_layout_witness:
  "block_limit 1 = Some 2 \<and>
   (\<exists>w' m. process_meta sample_addressing four_tiles 0 0 1 = Some w' \<and>
      Produced_meta (Meta_file 0 0 1) \<in> set (log w') \<and>
      files w' (Meta_file 0 0 1) = Some m \<and>
      take (length META_MAGIC) m = META_MAGIC \<and> m_count m = 64 \<and>
      m_x m = 0 \<and> m_y m = 0 \<and> m_z m = 1 \<and>
      index_offset m 0 = 532 \<and>
      index_offset m 1 = index_offset m 0 + index_size m 0 \<and>
      index_offset m 8 = index_offset m 1 + index_size m 1 \<and>
      index_offset m 9 = index_offset m 8 + index_size m 8 \<and>
      0 < index_size m 0 \<and> 0 < index_size m 1 \<and> 0 < index_size m 8 \<and> 0 < index_size m 9 \<and>
      index_offset m 9 + index_size m 9 = int (length m))"
proof -
  have ff: "files four_tiles = no_files(Tile_file 0 0 1 \<mapsto> [1], Tile_file 0 1 1 \<mapsto> [2],
                       Tile_file 1 0 1 \<mapsto> [3], Tile_file 1 1 1 \<mapsto> [4, 5])"
    and lf: "log four_tiles = []"
    by (simp_all add: four_tiles_def)
  have mp: "fst (xyz_to_meta sample_addressing 0 0 1) = Meta_file 0 0 1"
    by (simp add: sample_addressing_def)
  have slot: "snd (sub_meta sample_addressing 0 0 1 (0, 0)) = 0"
    "snd (sub_meta sample_addressing 0 0 1 (0, Suc 0)) = Suc 0"
    "snd (sub_meta sample_addressing 0 0 1 (Suc 0, 0)) = 8"
    "snd (sub_meta sample_addressing 0 0 1 (Suc 0, Suc 0)) = 9"
    by (simp_all add: sub_meta_def sample_addressing_def)
  have plan: "pack_plan sample_addressing (files four_tiles) 0 0 1 (block_coords 2) header_size
                = [(0, 532, [1]), (1, 533, [2]), (8, 534, [3]), (9, 535, [4, 5])]"
    by (simp add: block_coords_2 read_from_file_eq slot ff header_size_532 meta_buf_len_def)
  have good: "\<forall>p \<in> set (pack_plan sample_addressing (files four_tiles) 0 0 1 (block_coords 2)
                            header_size).
                 fst p < METATILE * METATILE \<and> snd (snd p) \<noteq> []"
    unfolding plan by (simp add: METATILE_def)
  from process_meta_success [OF block_limit_1 good] obtain w' evs e where
    run: "process_meta sample_addressing four_tiles 0 0 1 = Some w'"
    and lg: "log w' = log four_tiles @ evs
               @ [Produced_meta (fst (xyz_to_meta sample_addressing 0 0 1))] @ e"
    by blast
  have ok: "Produced_meta (fst (xyz_to_meta sample_addressing 0 0 1))
                   \<in> set (drop (length (log four_tiles)) (log w'))"
    by (simp add: lg)
  have logged: "Produced_meta (Meta_file 0 0 1) \<in> set (log w')"
    using ok by (simp add: lf mp)
  have dist: "distinct (map (\<lambda>c. snd (sub_meta sample_addressing 0 0 1 c)) (block_coords 2))"
    by (simp add: block_coords_2 slot)
  have sep: "\<forall>c \<in> set (block_coords 2).
               sub_path sample_addressing 0 0 1 c \<noteq> fst (xyz_to_meta sample_addressing 0 0 1)"
    by (simp add: block_coords_2 sub_path_def mp)
  have xr: "- (2 ^ 31) \<le> (0::int)" "(0::int) < 2 ^ 31" by simp_all
  from written_container_layout [OF block_limit_1 dist sep xr xr run ok]
  obtain m where fl: "files w' (fst (xyz_to_meta sample_addressing 0 0 1)) = Some m"
    and fields: "take (length META_MAGIC) m = META_MAGIC" "m_count m = int (METATILE * METATILE)"
      "m_x m = 0" "m_y m = 0" "m_z m = 1"
    and first: "index_offset m (snd (sub_meta sample_addressing 0 0 1 (block_coords 2 ! 0)))
                  = int header_size"
    and nxt: "\<forall>k. Suc k < length (block_coords 2) \<longrightarrow>
              index_offset m (snd (sub_meta sample_addressing 0 0 1 (block_coords 2 ! Suc k)))
                = index_offset m (snd (sub_meta sample_addressing 0 0 1 (block_coords 2 ! k)))
                  + index_size m (snd (sub_meta sample_addressing 0 0 1 (block_coords 2 ! k)))"
    and pos: "\<forall>k < length (block_coords 2).
              0 < index_size m (snd (sub_meta sample_addressing 0 0 1 (block_coords 2 ! k)))"
    and fin: "index_offset m (snd (sub_meta sample_addressing 0 0 1 (last (block_coords 2))))
             + index_size m (snd (sub_meta sample_addressing 0 0 1 (last (block_coords 2))))
               = int (length m)"
    by blast
  have c: "block_coords 2 ! 0 = (0, 0)" "block_coords 2 ! Suc 0 = (0, 1)"
    "block_coords 2 ! Suc (Suc 0) = (1, 0)" "block_coords 2 ! Suc (Suc (Suc 0)) = (1, 1)"
    "last (block_coords 2) = (1, 1)" "length (block_coords 2) = Suc (Suc (Suc (Suc 0)))"
    by (simp_all add: block_coords_2)
  have o0: "index_offset m 0 = 532" using first by (simp add: c slot header_size_532)
  have o1: "index_offset m 1 = index_offset m 0 + index_size m 0"
    using nxt [rule_format, of 0] by (simp add: c slot)
  have o8: "index_offset m 8 = index_offset m 1 + index_size m 1"
    using nxt [rule_format, of "Suc 0"] by (simp add: c slot)
  have o9: "index_offset m 9 = index_offset m 8 + index_size m 8"
    using nxt [rule_format, of "Suc (Suc 0)"] by (simp add: c slot)
  have p0: "0 < index_size m 0" using pos [rule_format, of 0] by (simp add: c slot)
  have p1: "0 < index_size m 1" using pos [rule_format, of "Suc 0"] by (simp add: c slot)
  have p8: "0 < index_size m 8" using pos [rule_format, of "Suc (Suc 0)"] by (simp add: c slot)
  have p9: "0 < index_size m 9" using pos [rule_format, of "Suc (Suc (Suc 0))"] by (simp add: c slot)
  have en: "index_offset m 9 + index_size m 9 = int (length m)" using fin by (simp add: c slot)
  have cnt: "m_count m = 64" using fields(2) by (simp add: METATILE_def)
  have "process_meta sample_addressing four_tiles 0 0 1 = Some w' \<and>
      Produced_meta (Meta_file 0 0 1) \<in> set (log w') \<and>
      files w' (Meta_file 0 0 1) = Some m \<and>
      take (length META_MAGIC) m = META_MAGIC \<and> m_count m = 64 \<and>
      m_x m = 0 \<and> m_y m = 0 \<and> m_z m = 1 \<and>
      index_offset m 0 = 532 \<and>
      index_offset m 1 = index_offset m 0 + index_size m 0 \<and>
      index_offset m 8 = index_offset m 1 + index_size m 1 \<and>
      index_offset m 9 = index_offset m 8 + index_size m 8 \<and>
      0 < index_size m 0 \<and> 0 < index_size m 1 \<and> 0 < index_size m 8 \<and> 0 < index_size m 9 \<and>
      index_offset m 9 + index_size m 9 = int (length m)"
    using run logged fl [unfolded mp] fields(1,3,4,5) cnt o0 o1 o8 o9 p0 p1 p8 p9 en
    by (intro conjI)
  then show ?thesis
    using block_limit_1 by blast
qed

text \<open>
  C8. At a zoom level \<open>z\<close> with \<open>2 ^ z < METATILE\<close> the loops of \<^verbatim>\<open>process_meta\<close> and of
  \<^verbatim>\<open>process_unpack\<close> go through the \<open>2 ^ z * 2 ^ z\<close> pairs \<open>(ox, oy)\<close> below \<open>2 ^ z\<close>, fewer
  than the \<open>METATILE * METATILE\<close> of a full block, and through no other sub-tile:

  \<^item> no run of \<^verbatim>\<open>process_meta\<close> changes a file other than the container and the
    standalone tiles of these pairs;
  \<^item> when the standalone tiles of these pairs are non-empty files that fit the working
    buffer, \<^verbatim>\<open>process_meta\<close> writes the container whatever else the store holds: the
    entries with a size other than 0 are those of the slots of these pairs,
    \<open>2 ^ z * 2 ^ z\<close> of the \<open>METATILE * METATILE\<close>, and the standalone tiles of these pairs
    are removed (the addressing gives the pairs distinct slots of the index table and
    paths other than the container's);
  \<^item> every run of \<^verbatim>\<open>process_unpack\<close> ends one pass of its inner loop for each of these
    pairs, in the order x outer, y inner, with "Failed to get tile" for the coordinates
    of the pair or with "Produced tile" for its path, and no other pass.
\<close>

theorem clipped_block:
  fixes A :: "'p addressing"
  assumes "0 \<le> z" "2 ^ nat z < METATILE"
  shows "length (block_coords (2 ^ nat z)) = 2 ^ nat z * 2 ^ nat z \<and>
         length (block_coords (2 ^ nat z)) < METATILE * METATILE \<and>
         set (block_coords (2 ^ nat z)) = {0..<2 ^ nat z} \<times> {0..<2 ^ nat z} \<and>
         (\<forall>w'. process_meta A w x y z = Some w' \<longrightarrow>
            (\<forall>p. p \<notin> sub_path A x y z ` set (block_coords (2 ^ nat z)) \<longrightarrow>
                 p \<noteq> fst (xyz_to_meta A x y z) \<longrightarrow> files w' p = files w p)) \<and>
         ((\<forall>c \<in> set (block_coords (2 ^ nat z)).
              snd (sub_meta A x y z c) < METATILE * METATILE \<and>
              sub_path A x y z c \<noteq> fst (xyz_to_meta A x y z) \<and>
              (\<exists>bs. files w (sub_path A x y z c) = Some bs \<and> bs \<noteq> [])) \<longrightarrow>
          distinct (map (\<lambda>c. snd (sub_meta A x y z c)) (block_coords (2 ^ nat z))) \<longrightarrow>
          header_size + sum_list (map (\<lambda>c. length (the (files w (sub_path A x y z c))))
            (block_coords (2 ^ nat z))) \<le> meta_buf_len \<longrightarrow>
          (\<exists>w' m. process_meta A w x y z = Some w' \<and>
             files w' (fst (xyz_to_meta A x y z)) = Some m \<and>
             {s. s < METATILE * METATILE \<and> index_size m s \<noteq> 0}
               = (\<lambda>c. snd (sub_meta A x y z c)) ` set (block_coords (2 ^ nat z)) \<and>
             card {s. s < METATILE * METATILE \<and> index_size m s \<noteq> 0} = 2 ^ nat z * 2 ^ nat z \<and>
             (\<forall>c \<in> set (block_coords (2 ^ nat z)). files w' (sub_path A x y z c) = None))) \<and>
         (\<forall>w'. path_to_xyz A name = Some (x, y, z) \<longrightarrow> process_unpack A w name = Some w' \<longrightarrow>
            list_all2 (\<lambda>e c. e = Failed_to_get (x + int (fst c)) (y + int (snd c)) z \<or>
                             e = Produced_tile (sub_path A x y z c))
              (filter unpack_step (drop (length (log w)) (log w'))) (block_coords (2 ^ nat z)))"
proof -
  define l :: nat where "l = 2 ^ nat z"
  define cs where "cs = block_coords l"
  define mp where "mp = fst (xyz_to_meta A x y z)"
  define slot where "slot = (\<lambda>c. snd (sub_meta A x y z c))"
  have "(2::nat) ^ nat z < 2 ^ 3" using assms by (simp add: METATILE_def)
  then have "nat z < 3" by (simp only: power_strict_increasing_iff)
  then have z31: "z < 31" by simp
  have lim: "block_limit z = Some l"
    using assms z31 by (simp add: block_limit_def shift_left_1_def min_def l_def)
  have few: "l * l < METATILE * METATILE"
    using assms(2) by (simp add: mult_strict_mono l_def)
  have len: "length cs = l * l" by (simp add: cs_def block_coords_def)
  have st: "set cs = {0..<l} \<times> {0..<l}" by (simp add: cs_def block_coords_def)
  have frame: "\<forall>w'. process_meta A w x y z = Some w' \<longrightarrow>
            (\<forall>p. p \<notin> sub_path A x y z ` set cs \<longrightarrow> p \<noteq> mp \<longrightarrow> files w' p = files w p)"
    unfolding cs_def mp_def
  proof (intro allI impI)
    fix w' p
    assume "process_meta A w x y z = Some w'" "p \<notin> sub_path A x y z ` set (block_coords l)"
      "p \<noteq> fst (xyz_to_meta A x y z)"
    then show "files w' p = files w p" by (rule process_meta_frame [OF _ lim])
  qed
  have pack: "\<exists>w' m. process_meta A w x y z = Some w' \<and> files w' mp = Some m \<and>
             {s. s < METATILE * METATILE \<and> index_size m s \<noteq> 0} = slot ` set cs \<and>
             card {s. s < METATILE * METATILE \<and> index_size m s \<noteq> 0} = l * l \<and>
             (\<forall>c \<in> set cs. files w' (sub_path A x y z c) = None)"
    if tiles: "\<forall>c \<in> set cs. slot c < METATILE * METATILE \<and> sub_path A x y z c \<noteq> mp \<and>
                 (\<exists>bs. files w (sub_path A x y z c) = Some bs \<and> bs \<noteq> [])"
      and dist: "distinct (map slot cs)"
      and fit: "header_size + sum_list (map (\<lambda>c. length (the (files w (sub_path A x y z c)))) cs)
                  \<le> meta_buf_len"
  proof -
    have h1: "\<forall>c \<in> set (block_coords l). snd (sub_meta A x y z c) < METATILE * METATILE"
      and h2: "\<forall>c \<in> set (block_coords l). sub_path A x y z c \<noteq> fst (xyz_to_meta A x y z)"
      and h3: "\<forall>c \<in> set (block_coords l). \<exists>bs. files w (sub_path A x y z c) = Some bs \<and> bs \<noteq> []"
      using tiles by (simp_all add: cs_def slot_def mp_def)
    have h4: "distinct (map (\<lambda>c. snd (sub_meta A x y z c)) (block_coords l))"
      using dist by (simp add: cs_def slot_def)
    from process_meta_clip [OF lim h1 h4 h2 h3 fit [unfolded cs_def]]
    obtain w' m where run: "process_meta A w x y z = Some w'"
      and cont: "files w' mp = Some m"
      and ent: "{s. s < METATILE * METATILE \<and> index_size m s \<noteq> 0} = slot ` set cs"
      and gone: "\<forall>c \<in> set cs. files w' (sub_path A x y z c) = None"
      unfolding cs_def mp_def slot_def by blast
    have "card (set (map slot cs)) = length (map slot cs)" by (rule distinct_card [OF dist])
    then have "card (slot ` set cs) = l * l" by (simp add: len)
    then have cd: "card {s. s < METATILE * METATILE \<and> index_size m s \<noteq> 0} = l * l"
      by (simp only: ent)
    from run cont ent cd gone show ?thesis by blast
  qed
  have unpack: "\<forall>w'. path_to_xyz A name = Some (x, y, z) \<longrightarrow> process_unpack A w name = Some w' \<longrightarrow>
            list_all2 (\<lambda>e c. e = Failed_to_get (x + int (fst c)) (y + int (snd c)) z \<or>
                             e = Produced_tile (sub_path A x y z c))
              (filter unpack_step (drop (length (log w)) (log w'))) cs"
    unfolding cs_def
  proof (intro allI impI)
    fix w'
    assume "path_to_xyz A name = Some (x, y, z)" "process_unpack A w name = Some w'"
    then show "list_all2 (\<lambda>e c. e = Failed_to_get (x + int (fst c)) (y + int (snd c)) z \<or>
                             e = Produced_tile (sub_path A x y z c))
              (filter unpack_step (drop (length (log w)) (log w'))) (block_coords l)"
      by (rule process_unpack_steps [OF _ _ lim, rotated])
  qed
  have "length cs = l * l \<and> length cs < METATILE * METATILE \<and> set cs = {0..<l} \<times> {0..<l} \<and>
        (\<forall>w'. process_meta A w x y z = Some w' \<longrightarrow>
            (\<forall>p. p \<notin> sub_path A x y z ` set cs \<longrightarrow> p \<noteq> mp \<longrightarrow> files w' p = files w p)) \<and>
        ((\<forall>c \<in> set cs. slot c < METATILE * METATILE \<and> sub_path A x y z c \<noteq> mp \<and>
                 (\<exists>bs. files w (sub_path A x y z c) = Some bs \<and> bs \<noteq> [])) \<longrightarrow>
          distinct (map slot cs) \<longrightarrow>
          header_size + sum_list (map (\<lambda>c. length (the (files w (sub_path A x y z c)))) cs)
            \<le> meta_buf_len \<longrightarrow>
          (\<exists>w' m. process_meta A w x y z = Some w' \<and> files w' mp = Some m \<and>
             {s. s < METATILE * METATILE \<and> index_size m s \<noteq> 0} = slot ` set cs \<and>
             card {s. s < METATILE * METATILE \<and> index_size m s \<noteq> 0} = l * l \<and>
             (\<forall>c \<in> set cs. files w' (sub_path A x y z c) = None))) \<and>
        (\<forall>w'. path_to_xyz A name = Some (x, y, z) \<longrightarrow> process_unpack A w name = Some w' \<longrightarrow>
            list_all2 (\<lambda>e c. e = Failed_to_get (x + int (fst c)) (y + int (snd c)) z \<or>
                             e = Produced_tile (sub_path A x y z c))
              (filter unpack_step (drop (length (log w)) (log w'))) cs)"
    using len few st frame pack unpack by simp
  then show ?thesis
    unfolding cs_def mp_def slot_def l_def .
qed

theorem clipped_block_witness:
  "(0::int) \<le> 1 \<and> (2::nat) ^ nat 1 < METATILE \<and>
   path_to_xyz sample_addressing (Meta_file 0 0 1) = Some (0, 0, 1) \<and>
   length (block_coords 2) = 4 \<and>
   (\<exists>w1 m w2.
      process_meta sample_addressing
        (four_tiles\<lparr>files := (files four_tiles)(Tile_file 0 2 1 \<mapsto> [9])\<rparr>) 0 0 1 = Some w1 \<and>
      files w1 (Meta_file 0 0 1) = Some m \<and>
      {s. s < METATILE * METATILE \<and> index_size m s \<noteq> 0} = {0, 1, 8, 9} \<and>
      card {s. s < METATILE * METATILE \<and> index_size m s \<noteq> 0} = 4 \<and>
      files w1 (Tile_file 1 1 1) = None \<and>
      files w1 (Tile_file 0 2 1) = Some [9] \<and>
      process_unpack sample_addressing w1 (Meta_file 0 0 1) = Some w2 \<and>
      length (filter unpack_step (drop (length (log w1)) (log w2))) = 4 \<and>
      list_all2 (\<lambda>e c. e = Failed_to_get (int (fst c)) (int (snd c)) 1 \<or>
                       e = Produced_tile (Tile_file (int (fst c)) (int (snd c)) 1))
        (filter unpack_step (drop (length (log w1)) (log w2)))
        [(0, 0), (0, 1), (1, 0), (1, 1)])"
proof -
  define W where "W = four_tiles\<lparr>files := (files four_tiles)(Tile_file 0 2 1 \<mapsto> [9])\<rparr>"
  have ff: "files W = no_files(Tile_file 0 0 1 \<mapsto> [1], Tile_file 0 1 1 \<mapsto> [2],
                       Tile_file 1 0 1 \<mapsto> [3], Tile_file 1 1 1 \<mapsto> [4, 5], Tile_file 0 2 1 \<mapsto> [9])"
    by (simp add: W_def four_tiles_def)
  have mp: "fst (xyz_to_meta sample_addressing 0 0 1) = Meta_file 0 0 1"
    by (simp add: sample_addressing_def)
  have z: "(0::int) \<le> 1" "(2::nat) ^ nat 1 < METATILE" by (simp_all add: METATILE_def)
  have two: "(2::nat) ^ nat 1 = 2" by simp
  have name: "path_to_xyz sample_addressing (Meta_file 0 0 1) = Some (0, 0, 1)" by simp
  have meta: "\<forall>c \<in> set (block_coords 2).
                 fst (sub_meta sample_addressing 0 0 1 c) = fst (xyz_to_meta sample_addressing 0 0 1) \<and>
                 snd (sub_meta sample_addressing 0 0 1 c) < METATILE * METATILE"
    by (simp add: block_coords_2 sub_meta_def sample_addressing_def METATILE_def)
  have dist: "distinct (map (\<lambda>c. snd (sub_meta sample_addressing 0 0 1 c)) (block_coords 2))"
    by (simp add: block_coords_2 sub_meta_def sample_addressing_def)
  have sep: "\<forall>c \<in> set (block_coords 2).
               sub_path sample_addressing 0 0 1 c \<noteq> fst (xyz_to_meta sample_addressing 0 0 1)"
    by (simp add: block_coords_2 sub_path_def mp)
  have tiles: "\<forall>c \<in> set (block_coords 2).
                 \<exists>bs. files W (sub_path sample_addressing 0 0 1 c) = Some bs \<and> bs \<noteq> []"
    by (simp add: block_coords_2 sub_path_def ff)
  have fit: "header_size + sum_list (map (\<lambda>c. length (the (files W
                (sub_path sample_addressing 0 0 1 c)))) (block_coords 2)) \<le> meta_buf_len"
    by (simp add: block_coords_2 sub_path_def ff header_size_532 meta_buf_len_def)
  have all: "\<forall>c \<in> set (block_coords 2).
              snd (sub_meta sample_addressing 0 0 1 c) < METATILE * METATILE \<and>
              sub_path sample_addressing 0 0 1 c \<noteq> fst (xyz_to_meta sample_addressing 0 0 1) \<and>
              (\<exists>bs. files W (sub_path sample_addressing 0 0 1 c) = Some bs \<and> bs \<noteq> [])"
    using meta sep tiles by simp
  have slots: "(\<lambda>c. snd (sub_meta sample_addressing 0 0 1 c)) ` set (block_coords 2) = {0, 1, 8, 9}"
    by (simp add: block_coords_2 sub_meta_def sample_addressing_def)
  have outside: "Tile_file 0 2 1 \<notin> sub_path sample_addressing 0 0 1 ` set (block_coords 2)"
    "Tile_file 0 2 1 \<noteq> fst (xyz_to_meta sample_addressing 0 0 1)"
    by (simp_all add: block_coords_2 sub_path_def mp)
  have inside: "(1, 1) \<in> set (block_coords 2)" by (simp add: block_coords_2)
  note T = clipped_block [where A = sample_addressing and x = 0 and y = 0 and name = "Meta_file 0 0 1",
      OF z, unfolded two]
  from T [where w = W] all dist fit
  obtain w1 m where run: "process_meta sample_addressing W 0 0 1 = Some w1"
    and cont: "files w1 (fst (xyz_to_meta sample_addressing 0 0 1)) = Some m"
    and ent: "{s. s < METATILE * METATILE \<and> index_size m s \<noteq> 0}
                = (\<lambda>c. snd (sub_meta sample_addressing 0 0 1 c)) ` set (block_coords 2)"
    and cd: "card {s. s < METATILE * METATILE \<and> index_size m s \<noteq> 0} = 2 * 2"
    and gone: "\<forall>c \<in> set (block_coords 2). files w1 (sub_path sample_addressing 0 0 1 c) = None"
    by blast
  from T [where w = W] run outside
  have kept: "files w1 (Tile_file 0 2 1) = files W (Tile_file 0 2 1)" by blast
  from gone inside have g11: "files w1 (Tile_file 1 1 1) = None"
    by (auto simp: sub_path_def)
  from roundtrip_general [OF block_limit_1 name meta dist sep tiles fit]
  obtain w2 where "pack_unpack sample_addressing W 0 0 1 (Meta_file 0 0 1) = Some w2" by blast
  then have un: "process_unpack sample_addressing w1 (Meta_file 0 0 1) = Some w2"
    by (simp add: pack_unpack_def run)
  from T [where w = w1] name un
  have steps: "list_all2 (\<lambda>e c. e = Failed_to_get (0 + int (fst c)) (0 + int (snd c)) 1 \<or>
                             e = Produced_tile (sub_path sample_addressing 0 0 1 c))
              (filter unpack_step (drop (length (log w1)) (log w2))) (block_coords 2)"
    by blast
  then have steps': "list_all2 (\<lambda>e c. e = Failed_to_get (int (fst c)) (int (snd c)) 1 \<or>
                       e = Produced_tile (Tile_file (int (fst c)) (int (snd c)) 1))
        (filter unpack_step (drop (length (log w1)) (log w2)))
        [(0, 0), (0, 1), (1, 0), (1, 1)]"
    by (simp add: block_coords_2 sub_path_def)
  have n4: "length (filter unpack_step (drop (length (log w1)) (log w2))) = 4"
    using list_all2_lengthD [OF steps'] by simp
  have l4: "length (block_coords 2) = 4" by (simp add: block_coords_2)
  have "process_meta sample_addressing W 0 0 1 = Some w1 \<and>
      files w1 (Meta_file 0 0 1) = Some m \<and>
      {s. s < METATILE * METATILE \<and> index_size m s \<noteq> 0} = {0, 1, 8, 9} \<and>
      card {s. s < METATILE * METATILE \<and> index_size m s \<noteq> 0} = 4 \<and>
      files w1 (Tile_file 1 1 1) = None \<and>
      files w1 (Tile_file 0 2 1) = Some [9] \<and>
      process_unpack sample_addressing w1 (Meta_file 0 0 1) = Some w2 \<and>
      length (filter unpack_step (drop (length (log w1)) (log w2))) = 4 \<and>
      list_all2 (\<lambda>e c. e = Failed_to_get (int (fst c)) (int (snd c)) 1 \<or>
                       e = Produced_tile (Tile_file (int (fst c)) (int (snd c)) 1))
        (filter unpack_step (drop (length (log w1)) (log w2)))
        [(0, 0), (0, 1), (1, 0), (1, 1)]"
    using run cont [unfolded mp] ent [unfolded slots] cd g11 kept un n4 steps'
    by (simp add: ff)
  then show ?thesis
    unfolding W_def using z name l4 by blast
qed

text \<open>
  C9. \<^verbatim>\<open>process_unpack\<close> unlinks the container after the loops whatever they did: once
  the name is parsed, no run leaves a file at the container's path. In particular, when
  every read of the block fails or returns no bytes, the run ends with the container
  removed and no other file created or changed, so a container that could not be read is
  destroyed.
\<close>

theorem unpack_unlinks_container:
  assumes "path_to_xyz A name = Some (x, y, z)"
  shows "(\<forall>w'. process_unpack A w name = Some w' \<longrightarrow>
            files w' (fst (xyz_to_meta A x y z)) = None) \<and>
         (\<forall>l. block_limit z = Some l \<longrightarrow>
            (\<forall>(ox, oy) \<in> set (block_coords l). \<exists>r buf evs.
               read_from_meta A (files w) (x + int ox) (y + int oy) z unpack_buf_len
                 = Some (r, buf, evs) \<and> r \<le> 0) \<longrightarrow>
            (\<exists>w'. process_unpack A w name = Some w' \<and>
                  files w' = (files w)(fst (xyz_to_meta A x y z) := None)))"
proof (rule conjI)
  show "\<forall>w'. process_unpack A w name = Some w' \<longrightarrow> files w' (fst (xyz_to_meta A x y z)) = None"
    using assms
    by (auto simp: process_unpack_def unpack_block_def sys_unlink_def Let_def
          split: option.splits if_splits)
next
  show "\<forall>l. block_limit z = Some l \<longrightarrow>
            (\<forall>(ox, oy) \<in> set (block_coords l). \<exists>r buf evs.
               read_from_meta A (files w) (x + int ox) (y + int oy) z unpack_buf_len
                 = Some (r, buf, evs) \<and> r \<le> 0) \<longrightarrow>
            (\<exists>w'. process_unpack A w name = Some w' \<and>
                  files w' = (files w)(fst (xyz_to_meta A x y z) := None))"
  proof (intro allI impI)
    fix l
    assume l: "block_limit z = Some l"
      and fail: "\<forall>(ox, oy) \<in> set (block_coords l). \<exists>r buf evs.
               read_from_meta A (files w) (x + int ox) (y + int oy) z unpack_buf_len
                 = Some (r, buf, evs) \<and> r \<le> 0"
    from unpack_tiles_all_fail [OF fail] obtain w1 where
      w1: "unpack_tiles A w x y z (block_coords l) = Some w1" "files w1 = files w"
      by blast
    have "process_unpack A w name =
            (case sys_unlink w1 (fst (xyz_to_meta A x y z)) of
               (r, w2) \<Rightarrow> Some (if r < 0 then say w2 [Unlink_failed (fst (xyz_to_meta A x y z))] else w2))"
      by (simp add: process_unpack_def assms l unpack_block_def w1 Let_def)
    then show "\<exists>w'. process_unpack A w name = Some w' \<and>
                  files w' = (files w)(fst (xyz_to_meta A x y z) := None)"
      using w1(2) by (auto simp: sys_unlink_def split: option.splits)
  qed
qed

theorem unpack_unlinks_container_witness:
  "path_to_xyz sample_addressing (Meta_file 0 0 0) = Some (0, 0, 0) \<and>
   block_limit 0 = Some 1 \<and>
   read_from_meta sample_addressing (no_files(Meta_file 0 0 0 \<mapsto> neg_container)) 0 0 0
     unpack_buf_len = Some (- 6, [], [Seek_error (Meta_file 0 0 0)]) \<and>
   (\<exists>w'. process_unpack sample_addressing
           \<lparr>files = no_files(Meta_file 0 0 0 \<mapsto> neg_container), log = []\<rparr> (Meta_file 0 0 0)
         = Some w' \<and>
         files w' (Meta_file 0 0 0) = None \<and>
         files w' = (no_files(Meta_file 0 0 0 \<mapsto> neg_container))(Meta_file 0 0 0 := None))"
proof -
  let ?w = "\<lparr>files = no_files(Meta_file 0 0 0 \<mapsto> neg_container), log = []\<rparr>"
  have l: "block_limit 0 = Some 1"
    by (simp add: block_limit_def shift_left_1_def METATILE_def)
  have rd: "read_from_meta sample_addressing (no_files(Meta_file 0 0 0 \<mapsto> neg_container)) 0 0 0
     unpack_buf_len = Some (- 6, [], [Seek_error (Meta_file 0 0 0)])"
    by (rule neg_container_read) simp
  have p: "path_to_xyz sample_addressing (Meta_file 0 0 0) = Some (0, 0, 0)" by simp
  from unpack_unlinks_container [OF p, of ?w] l rd
  have "\<exists>w'. process_unpack sample_addressing ?w (Meta_file 0 0 0) = Some w' \<and>
          files w' = (no_files(Meta_file 0 0 0 \<mapsto> neg_container))(Meta_file 0 0 0 := None)"
    by (simp add: block_coords_1)
  then show ?thesis
    using l rd p by auto
qed

text \<open>
  C10, as stated, fails for an entry of size 0 whose recorded offset is negative: the
  seek comes first and fails, and \<^verbatim>\<open>read_from_meta\<close> returns -6, not 0 bytes.
\<close>

theorem empty_entry_negative_offset_fails:
  "index_size neg_container 0 = 0 \<and>
   read_from_meta sample_addressing (no_files(Meta_file 0 0 0 \<mapsto> neg_container)) 0 0 0
     unpack_buf_len = Some (- 6, [], [Seek_error (Meta_file 0 0 0)])"
proof -
  have "read_from_meta sample_addressing (no_files(Meta_file 0 0 0 \<mapsto> neg_container)) 0 0 0
     unpack_buf_len = Some (- 6, [], [Seek_error (Meta_file 0 0 0)])"
    by (rule neg_container_read) simp
  then show ?thesis by (simp add: neg_container_fields)
qed

text \<open>
  C10, amended. For a slot whose entry records size 0 in a container with a valid header:
  if the recorded offset is not negative, \<^verbatim>\<open>read_from_meta\<close> succeeds and returns 0
  bytes; and whatever the offset, a run of \<^verbatim>\<open>process_unpack\<close> over the block reports the
  failure for that tile and leaves the tile's path as it was, so no zero-byte standalone
  file is written for it (the paths of the tiles of the block being distinct from each
  other and from the container's).
\<close>

theorem empty_entry_not_unpacked:
  assumes ps: "xyz_to_meta A (x + int ox) (y + int oy) z = (path, slot)"
    and bs: "files w path = Some bs"
    and magic: "take 4 bs = META_MAGIC" and count: "m_count bs = int (METATILE * METATILE)"
    and len: "index_end slot \<le> length bs" and slot: "index_end slot \<le> sizeof_header"
    and empty: "index_size bs slot = 0"
  shows "(0 \<le> index_offset bs slot \<longrightarrow>
            read_from_meta A (files w) (x + int ox) (y + int oy) z sz = Some (0, [], [])) \<and>
         (\<forall>l w'. path_to_xyz A name = Some (x, y, z) \<longrightarrow> block_limit z = Some l \<longrightarrow>
            (ox, oy) \<in> set (block_coords l) \<longrightarrow> fst (xyz_to_meta A x y z) = path \<longrightarrow>
            (\<forall>(ox', oy') \<in> set (block_coords l).
               xyz_to_path A (x + int ox') (y + int oy') z \<noteq> path \<and>
               ((ox', oy') \<noteq> (ox, oy) \<longrightarrow>
                  xyz_to_path A (x + int ox') (y + int oy') z
                    \<noteq> xyz_to_path A (x + int ox) (y + int oy) z)) \<longrightarrow>
            process_unpack A w name = Some w' \<longrightarrow>
            Failed_to_get (x + int ox) (y + int oy) z \<in> set (drop (length (log w)) (log w')) \<and>
            files w' (xyz_to_path A (x + int ox) (y + int oy) z)
              = files w (xyz_to_path A (x + int ox) (y + int oy) z))"
proof (rule conjI)
  show "0 \<le> index_offset bs slot \<longrightarrow>
          read_from_meta A (files w) (x + int ox) (y + int oy) z sz = Some (0, [], [])"
    unfolding read_from_meta_valid [where fs = "files w", OF ps bs magic count len slot]
    by (simp add: empty size_t_of_int_def)
next
  show "\<forall>l w'. path_to_xyz A name = Some (x, y, z) \<longrightarrow> block_limit z = Some l \<longrightarrow>
            (ox, oy) \<in> set (block_coords l) \<longrightarrow> fst (xyz_to_meta A x y z) = path \<longrightarrow>
            (\<forall>(ox', oy') \<in> set (block_coords l).
               xyz_to_path A (x + int ox') (y + int oy') z \<noteq> path \<and>
               ((ox', oy') \<noteq> (ox, oy) \<longrightarrow>
                  xyz_to_path A (x + int ox') (y + int oy') z
                    \<noteq> xyz_to_path A (x + int ox) (y + int oy) z)) \<longrightarrow>
            process_unpack A w name = Some w' \<longrightarrow>
            Failed_to_get (x + int ox) (y + int oy) z \<in> set (drop (length (log w)) (log w')) \<and>
            files w' (xyz_to_path A (x + int ox) (y + int oy) z)
              = files w (xyz_to_path A (x + int ox) (y + int oy) z)"
  proof (intro allI impI)
    fix l w'
    assume name: "path_to_xyz A name = Some (x, y, z)" and l: "block_limit z = Some l"
      and mem: "(ox, oy) \<in> set (block_coords l)" and mp: "fst (xyz_to_meta A x y z) = path"
      and paths: "\<forall>(ox', oy') \<in> set (block_coords l).
               xyz_to_path A (x + int ox') (y + int oy') z \<noteq> path \<and>
               ((ox', oy') \<noteq> (ox, oy) \<longrightarrow>
                  xyz_to_path A (x + int ox') (y + int oy') z
                    \<noteq> xyz_to_path A (x + int ox) (y + int oy) z)"
      and run: "process_unpack A w name = Some w'"
    define t where "t = xyz_to_path A (x + int ox) (y + int oy) z"
    define ev :: "'a event" where "ev = Failed_to_get (x + int ox) (y + int oy) z"
    from process_unpack_Some [OF run name l] obtain wl e3 where
      wl: "unpack_tiles A w x y z (block_coords l) = Some wl"
      and fw': "files w' = (files wl)(path := None)" and lw': "log w' = log wl @ e3"
      by (auto simp: mp)
    from split_list [OF mem] obtain cs1 cs2 where cs: "block_coords l = cs1 @ (ox, oy) # cs2"
      by blast
    have d: "(ox, oy) \<notin> set cs1" "(ox, oy) \<notin> set cs2"
      using distinct_block_coords [of l] unfolding cs by auto
    have sub: "set cs1 \<subseteq> set (block_coords l)" "set cs2 \<subseteq> set (block_coords l)"
      unfolding cs by auto
    have p1: "\<forall>(ox', oy') \<in> set cs1. xyz_to_path A (x + int ox') (y + int oy') z \<noteq> path"
      "\<forall>(ox', oy') \<in> set cs1. xyz_to_path A (x + int ox') (y + int oy') z \<noteq> t"
      "\<forall>(ox', oy') \<in> set cs2. xyz_to_path A (x + int ox') (y + int oy') z \<noteq> t"
      using paths sub d unfolding t_def by fastforce+
    have tp: "t \<noteq> path" using paths mem unfolding t_def by fastforce
    from wl obtain w1 where w1: "unpack_tiles A w x y z cs1 = Some w1"
      and rest: "unpack_tiles A w1 x y z ((ox, oy) # cs2) = Some wl"
      unfolding cs unpack_tiles_append by (auto split: option.splits)
    have f1: "files w1 path = Some bs" "files w1 t = files w t"
      using unpack_tiles_frame [OF w1 p1(1)] unpack_tiles_frame [OF w1 p1(2)] bs by simp_all
    obtain e1 where e1: "log w1 = log w @ e1" using unpack_tiles_log [OF w1] by blast
    have "\<exists>r buf msgs. read_from_meta A (files w1) (x + int ox) (y + int oy) z unpack_buf_len
            = Some (r, buf, msgs) \<and> r \<le> 0"
      unfolding read_from_meta_valid [where fs = "files w1", OF ps f1(1) magic count len slot]
      by (simp add: empty size_t_of_int_def)
    then obtain r buf msgs where
      rd: "read_from_meta A (files w1) (x + int ox) (y + int oy) z unpack_buf_len = Some (r, buf, msgs)"
      and r: "r \<le> 0" by blast
    define w2 where "w2 = say (say w1 msgs) [ev]"
    have rest2: "unpack_tiles A w2 x y z cs2 = Some wl"
      using rest r by (simp add: rd w2_def ev_def)
    have f2: "files wl t = files w2 t" by (rule unpack_tiles_frame [OF rest2 p1(3)])
    obtain e2 where e2: "log wl = log w2 @ e2" using unpack_tiles_log [OF rest2] by blast
    have "log w' = log w @ (e1 @ msgs @ [ev] @ e2 @ e3)"
      by (simp add: lw' e2 w2_def e1)
    then have "ev \<in> set (drop (length (log w)) (log w'))" by simp
    moreover have "files w' t = files w t"
      using tp by (simp add: fw' f2 w2_def f1(2))
    ultimately show "Failed_to_get (x + int ox) (y + int oy) z \<in> set (drop (length (log w)) (log w')) \<and>
            files w' (xyz_to_path A (x + int ox) (y + int oy) z)
              = files w (xyz_to_path A (x + int ox) (y + int oy) z)"
      by (simp add: t_def ev_def)
  qed
qed

theorem empty_entry_not_unpacked_witness:
  "index_size zero_container 0 = 0 \<and> 0 \<le> index_offset zero_container 0 \<and>
   read_from_meta sample_addressing (no_files(Meta_file 0 0 0 \<mapsto> zero_container)) 0 0 0
     unpack_buf_len = Some (0, [], []) \<and>
   (\<exists>w'. process_unpack sample_addressing
           \<lparr>files = no_files(Meta_file 0 0 0 \<mapsto> zero_container), log = []\<rparr> (Meta_file 0 0 0)
         = Some w' \<and>
         Failed_to_get 0 0 0 \<in> set (log w') \<and> files w' (Tile_file 0 0 0) = None)"
proof -
  let ?fs = "no_files(Meta_file 0 0 0 \<mapsto> zero_container)"
  let ?w = "\<lparr>files = ?fs, log = []\<rparr>"
  note inst = empty_entry_not_unpacked [where A = sample_addressing and x = 0 and y = 0 and z = 0
      and ox = 0 and oy = 0 and path = "Meta_file 0 0 0" and slot = 0 and bs = zero_container
      and w = ?w and name = "Meta_file 0 0 0" and sz = unpack_buf_len]
  have hyps: "xyz_to_meta sample_addressing (0 + int 0) (0 + int 0) 0 = (Meta_file 0 0 0, 0)"
    "files ?w (Meta_file 0 0 0) = Some zero_container"
    "take 4 zero_container = META_MAGIC" "m_count zero_container = int (METATILE * METATILE)"
    "index_end 0 \<le> length zero_container" "index_end 0 \<le> sizeof_header"
    "index_size zero_container 0 = 0"
    by (simp_all add: zero_container_fields sample_slot_0_in_header METATILE_def)
  note c = inst [OF hyps]
  have rd: "read_from_meta sample_addressing ?fs 0 0 0 unpack_buf_len = Some (0, [], [])"
    using c by (simp add: zero_container_fields)
  have "\<exists>w'. process_unpack sample_addressing ?w (Meta_file 0 0 0) = Some w'"
    using unpack_tiles_all_fail [where A = sample_addressing and w = ?w and x = 0 and y = 0
        and z = 0 and cs = "block_coords 1"] rd
    by (auto simp: process_unpack_def unpack_block_def block_limit_0 block_coords_1 Let_def
          sys_unlink_def split: option.splits)
  then obtain w' where run: "process_unpack sample_addressing ?w (Meta_file 0 0 0) = Some w'"
    by blast
  have "Failed_to_get 0 0 0 \<in> set (log w') \<and> files w' (Tile_file 0 0 0) = None"
    using c run by (simp add: block_limit_0 block_coords_1 no_files_def)
  with run rd show ?thesis
    by (auto simp: zero_container_fields)
qed

end
